theory Spec2Isabelle
  imports Complex_Main
begin

section \<open>Terminal sprite engine: data model\<close>

text \<open>
  The development follows \<^verbatim>\<open>newSimONE_V3_MLver7.py\<close> (the PNG-capable engine) and, where
  noted, \<^verbatim>\<open>simONE_Vthree.py\<close> (the truecolor-only variant with the same blit and physics).

  A colour is a triple of Python ints. A sprite is a list of rows of optional colours
  (\<open>None\<close> is a transparent cell). A canvas is a list of rows of rendered cells; the
  cell type is left open because the engine selects its cell encoders
  (\<^verbatim>\<open>bg_color_block\<close>, \<^verbatim>\<open>fg_on_bg_char\<close>) once at start-up from the colour mode.
\<close>

type_synonym color = "int \<times> int \<times> int"
type_synonym sprite = "color option list list"

datatype py_error = IndexError | ZeroDivisionError

text \<open>Reading and writing a list at a non-negative index; Python raises out of range.\<close>

definition py_index :: "'a list \<Rightarrow> nat \<Rightarrow> py_error + 'a" where
  "py_index xs i = (if i < length xs then Inr (xs ! i) else Inl IndexError)"

definition py_store :: "'a list \<Rightarrow> nat \<Rightarrow> 'a \<Rightarrow> py_error + 'a list" where
  "py_store xs i v = (if i < length xs then Inr (xs[i := v]) else Inl IndexError)"

text \<open>A \<^verbatim>\<open>for\<close> loop over a list of indices whose body updates a state or raises.\<close>

primrec for_range :: "nat list \<Rightarrow> (nat \<Rightarrow> 's \<Rightarrow> py_error + 's) \<Rightarrow> 's \<Rightarrow> py_error + 's" where
  "for_range [] body s = Inr s"
| "for_range (i # rest) body s =
     (case body i s of Inl e \<Rightarrow> Inl e | Inr s' \<Rightarrow> for_range rest body s')"

section \<open>Canvas compositor: \<^verbatim>\<open>place_sprite_on_canvas\<close>\<close>

text \<open>
  The body of the inner loop at sprite cell \<open>(sy, sx)\<close>, once the row guard has let
  canvas row \<open>cy\<close> through. The rows of a canvas are separate list objects (the canvas is
  built by a nested comprehension), so the store changes one row only.
\<close>

definition place_pixel ::
  "(color \<Rightarrow> 'c) \<Rightarrow> sprite \<Rightarrow> int \<Rightarrow> nat \<Rightarrow> nat \<Rightarrow> nat \<Rightarrow> nat \<Rightarrow> 'c list list
     \<Rightarrow> py_error + 'c list list" where
  "place_pixel bg_color_block sprite left sw cy sy sx canvas =
     (let cx = left + int sx in
      if cx < 0 \<or> cx \<ge> int sw then Inr canvas
      else
        (case py_index sprite sy of
           Inl e \<Rightarrow> Inl e
         | Inr srow \<Rightarrow>
             (case py_index srow sx of
                Inl e \<Rightarrow> Inl e
              | Inr None \<Rightarrow> Inr canvas
              | Inr (Some pixel) \<Rightarrow>
                  (case py_index canvas cy of
                     Inl e \<Rightarrow> Inl e
                   | Inr crow \<Rightarrow>
                       (case py_store crow (nat cx) (bg_color_block pixel) of
                          Inl e \<Rightarrow> Inl e
                        | Inr crow' \<Rightarrow> Inr (canvas[cy := crow']))))))"

definition place_row ::
  "(color \<Rightarrow> 'c) \<Rightarrow> sprite \<Rightarrow> int \<Rightarrow> int \<Rightarrow> nat \<Rightarrow> nat \<Rightarrow> nat \<Rightarrow> nat \<Rightarrow> 'c list list
     \<Rightarrow> py_error + 'c list list" where
  "place_row bg_color_block sprite ytop left sh sw w sy canvas =
     (let cy = ytop + int sy in
      if cy < 0 \<or> cy \<ge> int sh then Inr canvas
      else for_range [0..<w] (place_pixel bg_color_block sprite left sw (nat cy) sy) canvas)"

definition place_sprite_on_canvas ::
  "(color \<Rightarrow> 'c) \<Rightarrow> 'c list list \<Rightarrow> sprite \<Rightarrow> int \<Rightarrow> int \<Rightarrow> py_error + 'c list list" where
  "place_sprite_on_canvas bg_color_block canvas sprite ytop left =
     (let h = length sprite;
          w = (if h \<noteq> 0 then length (sprite ! 0) else 0);
          sh = length canvas;
          sw = (if sh \<noteq> 0 then length (canvas ! 0) else 0)
      in for_range [0..<h] (place_row bg_color_block sprite ytop left sh sw w) canvas)"

text \<open>
  Vocabulary for the blit property: a grid is rectangular when every row has the length
  of the first one, and \<open>sprite_at\<close> reads the sprite cell that maps onto a canvas
  coordinate (transparent outside the sprite's footprint).
\<close>

definition rectangular :: "'a list list \<Rightarrow> bool" where
  "rectangular g = list_all (\<lambda>row. length row = length (hd g)) g"

definition sprite_at :: "sprite \<Rightarrow> int \<Rightarrow> int \<Rightarrow> color option" where
  "sprite_at sprite i j =
     (if 0 \<le> i \<and> i < int (length sprite) \<and> 0 \<le> j \<and> j < int (length (hd sprite))
      then sprite ! nat i ! nat j else None)"

text \<open>
  Closed forms of the two loops after \<open>k\<close> sprite columns and \<open>j\<close> sprite rows; the loop
  lemmas below show that the loops compute them.
\<close>

definition blit_cell :: "(color \<Rightarrow> 'c) \<Rightarrow> color option list \<Rightarrow> int \<Rightarrow> nat \<Rightarrow> 'c list \<Rightarrow> nat \<Rightarrow> 'c" where
  "blit_cell enc srow left k crow cx =
     (if left \<le> int cx \<and> nat (int cx - left) < k
      then (case srow ! nat (int cx - left) of Some c \<Rightarrow> enc c | None \<Rightarrow> crow ! cx)
      else crow ! cx)"

definition blit_row_upto :: "(color \<Rightarrow> 'c) \<Rightarrow> color option list \<Rightarrow> int \<Rightarrow> nat \<Rightarrow> 'c list \<Rightarrow> 'c list" where
  "blit_row_upto enc srow left k crow = map (blit_cell enc srow left k crow) [0..<length crow]"

definition blit_rows_upto ::
  "(color \<Rightarrow> 'c) \<Rightarrow> sprite \<Rightarrow> int \<Rightarrow> int \<Rightarrow> nat \<Rightarrow> nat \<Rightarrow> 'c list list \<Rightarrow> nat \<Rightarrow> 'c list" where
  "blit_rows_upto enc sprite ytop left j w canvas cy =
     (if ytop \<le> int cy \<and> nat (int cy - ytop) < j
      then blit_row_upto enc (sprite ! nat (int cy - ytop)) left w (canvas ! cy)
      else canvas ! cy)"


section \<open>Frame composition (the drawing part of the main loop)\<close>

text \<open>A \<^verbatim>\<open>for\<close> loop whose body may \<^verbatim>\<open>break\<close>.\<close>

datatype 's flow = Next 's | Break 's

primrec loop_flow :: "nat list \<Rightarrow> (nat \<Rightarrow> 's \<Rightarrow> py_error + 's flow) \<Rightarrow> 's \<Rightarrow> py_error + 's flow" where
  "loop_flow [] body s = Inr (Next s)"
| "loop_flow (i # rest) body s =
     (case body i s of
        Inl e \<Rightarrow> Inl e
      | Inr (Break s') \<Rightarrow> Inr (Break s')
      | Inr (Next s') \<Rightarrow> loop_flow rest body s')"

definition for_break :: "nat list \<Rightarrow> (nat \<Rightarrow> 's \<Rightarrow> py_error + 's flow) \<Rightarrow> 's \<Rightarrow> py_error + 's" where
  "for_break is body s =
     (case loop_flow is body s of
        Inl e \<Rightarrow> Inl e
      | Inr (Break s') \<Rightarrow> Inr s'
      | Inr (Next s') \<Rightarrow> Inr s')"

text \<open>
  The control hint: the text is cut to the terminal width and written, one cell per
  character, into the last canvas row (\<^verbatim>\<open>canvas[-1][i] = ...\<close>).
\<close>

definition draw_controls :: "(char \<Rightarrow> 'c) \<Rightarrow> string \<Rightarrow> nat \<Rightarrow> 'c list list \<Rightarrow> py_error + 'c list list" where
  "draw_controls ctrl_cell controls sw canvas =
     (let controls' = (if length controls \<ge> sw then take sw controls else controls) in
      for_range [0..<length controls']
        (\<lambda>i cv. if cv = [] then Inl IndexError
                else (case py_store (last cv) i (ctrl_cell (controls' ! i)) of
                        Inl e \<Rightarrow> Inl e
                      | Inr row' \<Rightarrow> Inr (cv[length cv - 1 := row'])))
        canvas)"

text \<open>
  The diagnostic overlay: line \<open>hi\<close> goes to canvas row \<open>hi\<close>; the outer loop breaks at
  \<^verbatim>\<open>hi >= sh-2\<close> and the inner one at \<^verbatim>\<open>ci >= sw\<close>.
\<close>

definition draw_hud_line :: "(char \<Rightarrow> 'c) \<Rightarrow> string \<Rightarrow> nat \<Rightarrow> nat \<Rightarrow> 'c list list \<Rightarrow> py_error + 'c list list" where
  "draw_hud_line hud_cell line sw hi canvas =
     for_break [0..<length line]
       (\<lambda>ci cv. if ci \<ge> sw then Inr (Break cv)
                else (case py_index cv hi of
                        Inl e \<Rightarrow> Inl e
                      | Inr row \<Rightarrow>
                          (case py_store row ci (hud_cell (line ! ci)) of
                             Inl e \<Rightarrow> Inl e
                           | Inr row' \<Rightarrow> Inr (Next (cv[hi := row'])))))
       canvas"

definition draw_hud :: "(char \<Rightarrow> 'c) \<Rightarrow> string list \<Rightarrow> nat \<Rightarrow> nat \<Rightarrow> 'c list list \<Rightarrow> py_error + 'c list list" where
  "draw_hud hud_cell hud_lines sh sw canvas =
     for_break [0..<length hud_lines]
       (\<lambda>hi cv. if int hi \<ge> int sh - 2 then Inr (Break cv)
                else (case draw_hud_line hud_cell (hud_lines ! hi) sw hi cv of
                        Inl e \<Rightarrow> Inl e
                      | Inr cv' \<Rightarrow> Inr (Next cv')))
       canvas"

text \<open>
  One frame, in the order of the statements of the loop body: fill, control hint, planet
  sprite, satellite sprite, and the overlay when \<open>debug\<close> is set. The sprite offsets are
  computed by the callers below. Both programs share this shape; they differ in the cell
  encoders, the hint text, the rounding of the satellite position and the overlay
  (absent in \<^verbatim>\<open>simONE_Vthree.py\<close>).
\<close>

definition compose_frame ::
  "'c \<Rightarrow> (char \<Rightarrow> 'c) \<Rightarrow> (color \<Rightarrow> 'c) \<Rightarrow> (char \<Rightarrow> 'c) \<Rightarrow> string \<Rightarrow> nat \<Rightarrow> nat
     \<Rightarrow> sprite \<Rightarrow> int \<Rightarrow> int \<Rightarrow> sprite \<Rightarrow> int \<Rightarrow> int \<Rightarrow> bool \<Rightarrow> string list
     \<Rightarrow> py_error + 'c list list" where
  "compose_frame bg_cell ctrl_cell bg_color_block hud_cell controls sh sw
       planet_sprite ptop pleft sat_sprite stop sleft debug hud_lines =
     (let canvas = replicate sh (replicate sw bg_cell) in
      case draw_controls ctrl_cell controls sw canvas of
        Inl e \<Rightarrow> Inl e
      | Inr canvas1 \<Rightarrow>
          (case place_sprite_on_canvas bg_color_block canvas1 planet_sprite ptop pleft of
             Inl e \<Rightarrow> Inl e
           | Inr canvas2 \<Rightarrow>
               (case place_sprite_on_canvas bg_color_block canvas2 sat_sprite stop sleft of
                  Inl e \<Rightarrow> Inl e
                | Inr canvas3 \<Rightarrow>
                    if debug then draw_hud hud_cell hud_lines sh sw canvas3 else Inr canvas3)))"

text \<open>
  Python's \<^verbatim>\<open>round\<close> on a float (ties go to the even integer) and \<^verbatim>\<open>int\<close> on a float
  (truncation towards zero). Floats are read as the real numbers they denote.
\<close>

definition py_round :: "real \<Rightarrow> int" where
  "py_round x =
     (let f = \<lfloor>x\<rfloor>; d = x - of_int f in
      if d < 1/2 then f else if d > 1/2 then f + 1 else if even f then f else f + 1)"

definition py_int :: "real \<Rightarrow> int" where
  "py_int x = (if x \<ge> 0 then \<lfloor>x\<rfloor> else \<lceil>x\<rceil>)"

text \<open>
  \<^verbatim>\<open>newSimONE_V3_MLver7.py\<close>, lines 571 to 618. \<open>y0, x0\<close> are the integer anchor
  (\<^verbatim>\<open>int(round(y0))\<close> is \<open>y0\<close>), \<open>y1, x1\<close> the float position of the satellite, \<open>sat_h,
  sat_w\<close> the dimensions read from the first satellite frame, \<open>sat_sprite\<close> the frame
  chosen for this tick, and \<open>hud_lines\<close> the four formatted overlay lines.
\<close>

definition controls_text :: string where
  "controls_text = ''W A S D: THRUST | Q: QUIT | I: TOGGLE HUD''"

definition render_frame ::
  "(color \<Rightarrow> 'c) \<Rightarrow> (color \<Rightarrow> color \<Rightarrow> char \<Rightarrow> 'c) \<Rightarrow> color \<Rightarrow> nat \<Rightarrow> nat
     \<Rightarrow> sprite \<Rightarrow> int \<Rightarrow> int \<Rightarrow> sprite \<Rightarrow> nat \<Rightarrow> nat \<Rightarrow> real \<Rightarrow> real \<Rightarrow> bool \<Rightarrow> string list
     \<Rightarrow> py_error + 'c list list" where
  "render_frame bg_color_block fg_on_bg_char bg_rgb sh sw
       planet_sprite y0 x0 sat_sprite sat_h sat_w y1 x1 debug hud_lines =
     (let controls_fg = (245, 245, 245);
          hud_fg = (245, 245, 245);
          pr = int (length planet_sprite)
      in compose_frame (bg_color_block bg_rgb) (fg_on_bg_char controls_fg bg_rgb)
           bg_color_block (fg_on_bg_char hud_fg bg_rgb) controls_text sh sw
           planet_sprite (y0 - pr div 2) (x0 - pr div 2)
           sat_sprite (py_round y1 - int sat_h div 2) (py_round x1 - int sat_w div 2)
           debug hud_lines)"

text \<open>
  \<^verbatim>\<open>simONE_Vthree.py\<close>, lines 301 to 329: cells are plain strings, the fill is a space,
  the hint characters are written raw, the position is truncated, there is no overlay.
\<close>

definition controls_text_vthree :: string where
  "controls_text_vthree = ''W-A-S-D: THRUST | Q: QUIT''"

definition render_frame_vthree ::
  "(color \<Rightarrow> string) \<Rightarrow> nat \<Rightarrow> nat \<Rightarrow> sprite \<Rightarrow> int \<Rightarrow> int \<Rightarrow> sprite \<Rightarrow> nat \<Rightarrow> nat \<Rightarrow> real \<Rightarrow> real
     \<Rightarrow> py_error + string list list" where
  "render_frame_vthree bg_color_block sh sw planet_sprite y0 x0 sat_sprite sat_h sat_w y1 x1 =
     (let pr = int (length planet_sprite)
      in compose_frame '' '' (\<lambda>ch. [ch]) bg_color_block (\<lambda>ch. [ch]) controls_text_vthree sh sw
           planet_sprite (y0 - pr div 2) (x0 - pr div 2)
           sat_sprite (py_int y1 - int sat_h div 2) (py_int x1 - int sat_w div 2)
           False [])"

text \<open>
  The truecolor cell encoders. \<open>str_int\<close> is Python's decimal \<^verbatim>\<open>str\<close> of an int, as the
  f-strings insert it.
\<close>

fun str_nat :: "nat \<Rightarrow> string" where
  "str_nat n = (if n < 10 then [char_of (48 + n)] else str_nat (n div 10) @ [char_of (48 + n mod 10)])"

definition str_int :: "int \<Rightarrow> string" where
  "str_int i = (if i < 0 then CHR ''-'' # str_nat (nat (- i)) else str_nat (nat i))"

definition ESC :: char where
  "ESC = CHR 0x1B"

definition RESET :: string where
  "RESET = ESC # ''[0m''"

definition bg_color_block_true :: "color \<Rightarrow> string" where
  "bg_color_block_true c =
     (case c of (r, g, b) \<Rightarrow>
        ESC # ''[48;2;'' @ str_int r @ '';'' @ str_int g @ '';'' @ str_int b @ ''m '' @ ESC # ''[0m'')"

definition fg_on_bg_char_true :: "color \<Rightarrow> color \<Rightarrow> char \<Rightarrow> string" where
  "fg_on_bg_char_true fg bg ch =
     (case fg of (fr, fgc, fb) \<Rightarrow> case bg of (br, bg2, bb) \<Rightarrow>
        ESC # ''[48;2;'' @ str_int br @ '';'' @ str_int bg2 @ '';'' @ str_int bb @ ''m''
        @ ESC # ''[38;2;'' @ str_int fr @ '';'' @ str_int fgc @ '';'' @ str_int fb @ ''m''
        @ [ch] @ RESET)"

text \<open>
  The layering that the frame realises, as a function of the cell coordinate: overlay
  over satellite over planet over control hint over fill. \<open>cell_of\<close> reads one cell of a
  composed frame.
\<close>

definition frame_cell ::
  "'c \<Rightarrow> (char \<Rightarrow> 'c) \<Rightarrow> (color \<Rightarrow> 'c) \<Rightarrow> (char \<Rightarrow> 'c) \<Rightarrow> string \<Rightarrow> nat \<Rightarrow> nat
     \<Rightarrow> sprite \<Rightarrow> int \<Rightarrow> int \<Rightarrow> sprite \<Rightarrow> int \<Rightarrow> int \<Rightarrow> bool \<Rightarrow> string list \<Rightarrow> nat \<Rightarrow> nat \<Rightarrow> 'c" where
  "frame_cell bg_cell ctrl_cell bg_color_block hud_cell controls sh sw
       planet_sprite ptop pleft sat_sprite stop sleft debug hud_lines cy cx =
     (if debug \<and> int cy < int sh - 2 \<and> cy < length hud_lines \<and> cx < length (hud_lines ! cy)
      then hud_cell (hud_lines ! cy ! cx)
      else
        (case sprite_at sat_sprite (int cy - stop) (int cx - sleft) of
           Some c \<Rightarrow> bg_color_block c
         | None \<Rightarrow>
             (case sprite_at planet_sprite (int cy - ptop) (int cx - pleft) of
                Some c \<Rightarrow> bg_color_block c
              | None \<Rightarrow>
                  if Suc cy = sh \<and> cx < length controls then ctrl_cell (controls ! cx)
                  else bg_cell)))"

definition cell_of :: "py_error + 'c list list \<Rightarrow> nat \<Rightarrow> nat \<Rightarrow> 'c option" where
  "cell_of frame cy cx =
     (case frame of
        Inl e \<Rightarrow> None
      | Inr canvas \<Rightarrow>
          if cy < length canvas \<and> cx < length (canvas ! cy) then Some (canvas ! cy ! cx) else None)"

definition grid :: "nat \<Rightarrow> nat \<Rightarrow> 'c list list \<Rightarrow> bool" where
  "grid sh sw canvas = (length canvas = sh \<and> list_all (\<lambda>row. length row = sw) canvas)"

text \<open>Closed forms for the text loops: a row with its first \<open>k\<close> cells replaced.\<close>

definition overlay_row :: "(nat \<Rightarrow> 'c) \<Rightarrow> nat \<Rightarrow> 'c list \<Rightarrow> 'c list" where
  "overlay_row f k row = map (\<lambda>cx. if cx < k then f cx else row ! cx) [0..<length row]"

definition hud_rows :: "(char \<Rightarrow> 'c) \<Rightarrow> string list \<Rightarrow> nat \<Rightarrow> nat \<Rightarrow> 'c list list \<Rightarrow> 'c list list" where
  "hud_rows hud_cell hud_lines sw j canvas =
     map (\<lambda>cy. if cy < j
               then overlay_row (\<lambda>cx. hud_cell (hud_lines ! cy ! cx))
                      (min (length (hud_lines ! cy)) sw) (canvas ! cy)
               else canvas ! cy) [0..<length canvas]"

text \<open>
  Two concrete sprites for the examples below: an opaque 7 by 7 planet image and a 3 by 3
  satellite with transparent corners.
\<close>

definition demo_planet :: sprite where
  "demo_planet = replicate 7 (replicate 7 (Some (200, 120, 80)))"

definition demo_sat :: sprite where
  "demo_sat = [[None, Some (240, 240, 80), None],
               [Some (240, 240, 80), Some (240, 240, 80), Some (240, 240, 80)],
               [None, Some (240, 240, 80), None]]"


section \<open>Colour quantisation to the 256-colour palette: \<^verbatim>\<open>rgb_to_ansi256\<close>\<close>

text \<open>
  The arguments are Python ints, so \<^verbatim>\<open>int(v)\<close> inside \<^verbatim>\<open>clamp255\<close> is the identity. The
  two scalings are float expressions; they are read over the reals. For integer channels
  their values never come closer than \<open>1/102\<close> (cube) or \<open>1/1530\<close> (grey) to a rounding
  tie, far more than a double's error, so the rounded results are those of the program.
\<close>

definition clamp255 :: "int \<Rightarrow> int" where
  "clamp255 v = max 0 (min 255 v)"

definition to_index :: "int \<Rightarrow> int" where
  "to_index v = py_round ((real_of_int v / 255) * 5)"

definition from_index :: "int \<Rightarrow> int" where
  "from_index i = (if i = 0 then 0 else 55 + 40 * i)"

definition rgb_to_ansi256 :: "int \<Rightarrow> int \<Rightarrow> int \<Rightarrow> int" where
  "rgb_to_ansi256 r0 g0 b0 =
     (let r = clamp255 r0; g = clamp255 g0; b = clamp255 b0;
          ri = to_index r; gi = to_index g; bi = to_index b;
          cube_code = 16 + 36 * ri + 6 * gi + bi;
          cube_r = from_index ri; cube_g = from_index gi; cube_b = from_index bi;
          gray_level = py_round (((real_of_int (r + g + b) / 3) / 255) * 23);
          gray_val = 8 + gray_level * 10;
          dc = (r - cube_r)\<^sup>2 + (g - cube_g)\<^sup>2 + (b - cube_b)\<^sup>2;
          dg = (r - gray_val)\<^sup>2 + (g - gray_val)\<^sup>2 + (b - gray_val)\<^sup>2
      in if dc \<le> dg then cube_code else 232 + gray_level)"

text \<open>
  The specification's vocabulary, written from its words: the projection onto the
  6 by 6 by 6 cube, the projection onto the 24-step grey ramp, the squared Euclidean
  distance, and the colour that a palette index of the cube or of the ramp stands for.
  \<open>round\<close> is rounding to the nearest integer.
\<close>

definition spec_cube_index :: "int \<Rightarrow> int" where
  "spec_cube_index c = round (real_of_int c / 255 * 5)"

definition spec_cube_value :: "int \<Rightarrow> int" where
  "spec_cube_value i = (if i = 0 then 0 else 55 + 40 * i)"

definition spec_cube_projection :: "color \<Rightarrow> color" where
  "spec_cube_projection c =
     (case c of (r, g, b) \<Rightarrow>
        (spec_cube_value (spec_cube_index r), spec_cube_value (spec_cube_index g),
         spec_cube_value (spec_cube_index b)))"

definition spec_gray_level :: "color \<Rightarrow> int" where
  "spec_gray_level c = (case c of (r, g, b) \<Rightarrow> round (real_of_int (r + g + b) / 3 / 255 * 23))"

definition spec_gray_projection :: "color \<Rightarrow> color" where
  "spec_gray_projection c =
     (let v = 8 + 10 * spec_gray_level c in (v, v, v))"

definition sqdist :: "color \<Rightarrow> color \<Rightarrow> int" where
  "sqdist p q =
     (case p of (r, g, b) \<Rightarrow> case q of (r', g', b') \<Rightarrow> (r - r')\<^sup>2 + (g - g')\<^sup>2 + (b - b')\<^sup>2)"

definition palette256 :: "int \<Rightarrow> color" where
  "palette256 code =
     (if code < 232
      then (let i = code - 16 in
            (spec_cube_value (i div 36), spec_cube_value (i div 6 mod 6), spec_cube_value (i mod 6)))
      else (let v = 8 + 10 * (code - 232) in (v, v, v)))"

definition channel8 :: "int \<Rightarrow> bool" where
  "channel8 v = (0 \<le> v \<and> v \<le> 255)"

section \<open>Procedural disc sprite: \<^verbatim>\<open>generate_smooth_circle\<close>\<close>

text \<open>
  The generator computes with floats. They are read as the real numbers they denote and
  the operations as exact; \<open>1e-9\<close> and \<open>1e-6\<close> are the decimal fractions. The one
  comparison that decides transparency, \<^verbatim>\<open>dist <= rad_hr + 0.25 * ss\<close>, is not sensitive
  to this: the squared distance and the squared bound are multiples of \<open>1/16\<close>, so they are
  either equal or a sixteenth apart.
\<close>

definition clamp :: "real \<Rightarrow> int" where
  "clamp v = max 0 (min 255 (py_int v))"

definition blend :: "color \<Rightarrow> color \<Rightarrow> real \<Rightarrow> color" where
  "blend c1 c2 t =
     (case c1 of (r1, g1, b1) \<Rightarrow> case c2 of (r2, g2, b2) \<Rightarrow>
        (clamp (of_int r1 * (1 - t) + of_int r2 * t),
         clamp (of_int g1 * (1 - t) + of_int g2 * t),
         clamp (of_int b1 * (1 - t) + of_int b2 * t)))"

definition hypot :: "real \<Rightarrow> real \<Rightarrow> real" where
  "hypot x y = sqrt (x\<^sup>2 + y\<^sup>2)"

text \<open>
  The edge weight of a point at the given distance from the centre (lines 343 to 351);
  \<open>distance\<close> is the source's \<^verbatim>\<open>dist\<close>.
\<close>

definition t_edge_at :: "real \<Rightarrow> real \<Rightarrow> real \<Rightarrow> real" where
  "t_edge_at rad_hr edge_thickness_hr distance =
     (let dn = distance / (rad_hr + 1 / 10 ^ 9);
          edge_start = max 0 ((rad_hr - edge_thickness_hr) / (rad_hr + 1 / 10 ^ 9))
      in if dn \<ge> edge_start
         then (if 1 - edge_start > 1 / 10 ^ 6
               then max 0 (min 1 ((dn - edge_start) / (1 - edge_start)))
               else 1)
         else 0)"

text \<open>The colour of the high-resolution point \<open>(x, y)\<close>, or \<open>None\<close> outside the disc.\<close>

definition hr_color_at ::
  "nat \<Rightarrow> color \<Rightarrow> color option \<Rightarrow> nat \<Rightarrow> real \<Rightarrow> nat \<Rightarrow> nat \<Rightarrow> color option" where
  "hr_color_at radius_cells color_rgb edge_rgb ss edge_width y x =
     (let cells = radius_cells * 2 + 1;
          high = cells * ss;
          center = (real high - 1) / 2;
          rad_hr = real (radius_cells * ss);
          edge_thickness_hr = max 1 (edge_width * rad_hr);
          dy = real y - center;
          dx = real x - center;
          distance = hypot dx dy
      in if distance \<le> rad_hr + 1 / 4 * real ss
         then Some (case edge_rgb of
                      Some e \<Rightarrow> blend color_rgb e (t_edge_at rad_hr edge_thickness_hr distance)
                    | None \<Rightarrow> color_rgb)
         else None)"

text \<open>
  One output cell: the covered samples of its block are summed and averaged, and the
  average is mixed with the background by the coverage. The index into \<open>hr_color\<close> is
  always in range. The three components are rounded here from the exact mixture; where
  that is a tie (a fraction of exactly one half) the program's float can fall on either
  side of it, so a component can differ from the program's by one. Whether the cell is
  \<open>None\<close> depends on the coverage count only.
\<close>

definition block_values :: "color option list \<Rightarrow> nat \<Rightarrow> nat \<Rightarrow> nat \<Rightarrow> nat \<Rightarrow> color option list" where
  "block_values hr_color high ss cy cx =
     concat (map (\<lambda>oy. map (\<lambda>ox. hr_color ! ((cy * ss + oy) * high + (cx * ss + ox))) [0..<ss])
               [0..<ss])"

definition add_sample :: "color option \<Rightarrow> real \<times> real \<times> real \<times> nat \<Rightarrow> real \<times> real \<times> real \<times> nat" where
  "add_sample val acc =
     (case val of
        None \<Rightarrow> acc
      | Some (r, g, b) \<Rightarrow>
          (case acc of (accum_r, accum_g, accum_b, covered) \<Rightarrow>
             (accum_r + of_int r, accum_g + of_int g, accum_b + of_int b, covered + 1)))"

definition circle_cell :: "color \<Rightarrow> color option list \<Rightarrow> nat \<Rightarrow> nat \<Rightarrow> nat \<Rightarrow> nat \<Rightarrow> color option" where
  "circle_cell bg_rgb hr_color high ss cy cx =
     (case fold add_sample (block_values hr_color high ss cy cx) (0, 0, 0, 0) of
        (accum_r, accum_g, accum_b, covered) \<Rightarrow>
          if covered = 0 then None
          else
            (let avg_r = accum_r / real covered;
                 avg_g = accum_g / real covered;
                 avg_b = accum_b / real covered;
                 cov = real covered / real (ss * ss)
             in case bg_rgb of (bg0, bg1, bg2) \<Rightarrow>
                  Some (py_round (avg_r * cov + of_int bg0 * (1 - cov)),
                        py_round (avg_g * cov + of_int bg1 * (1 - cov)),
                        py_round (avg_b * cov + of_int bg2 * (1 - cov)))))"

text \<open>
  The generator. \<open>bg_rgb\<close> is the module-level background colour that the function
  reads; the radius is a non-negative int at every call site.
\<close>

definition generate_smooth_circle ::
  "color \<Rightarrow> nat \<Rightarrow> color \<Rightarrow> color option \<Rightarrow> int \<Rightarrow> real \<Rightarrow> sprite" where
  "generate_smooth_circle bg_rgb radius_cells color_rgb edge_rgb supersample edge_width =
     (let cells = radius_cells * 2 + 1;
          ss = nat (max 1 supersample);
          high = cells * ss;
          hr_color = concat (map (\<lambda>y. map (\<lambda>x. hr_color_at radius_cells color_rgb edge_rgb ss
                                                 edge_width y x) [0..<high]) [0..<high])
      in map (\<lambda>cy. map (\<lambda>cx. circle_cell bg_rgb hr_color high ss cy cx) [0..<cells]) [0..<cells])"

definition PALETTE_planet :: color where "PALETTE_planet = (200, 120, 80)"
definition PALETTE_planet_edge :: color where "PALETTE_planet_edge = (120, 60, 30)"
definition PALETTE_sat :: color where "PALETTE_sat = (240, 240, 80)"
definition PALETTE_sat_edge :: color where "PALETTE_sat_edge = (200, 160, 30)"

text \<open>
  Vocabulary for the disc properties: the distance of the high-resolution sample
  \<open>(x, y)\<close> from the high-resolution centre.
\<close>

definition sample_distance :: "nat \<Rightarrow> nat \<Rightarrow> nat \<Rightarrow> nat \<Rightarrow> real" where
  "sample_distance radius_cells ss y x =
     hypot (real x - (real ((radius_cells * 2 + 1) * ss) - 1) / 2)
           (real y - (real ((radius_cells * 2 + 1) * ss) - 1) / 2)"

section \<open>Image sprite: \<^verbatim>\<open>load_png_sprite\<close>\<close>

text \<open>
  Pillow is outside the repository. A decoded RGBA image is a width, a height and a pixel
  accessor; \<open>opened\<close> is the result of \<^verbatim>\<open>Image.open(path).convert("RGBA")\<close>, \<open>None\<close> when
  it raised (the call sits in a \<^verbatim>\<open>try\<close>), and the two Pillow operations that follow,
  \<^verbatim>\<open>resize\<close> and the centred \<^verbatim>\<open>paste\<close> onto a transparent square, are parameters.
\<close>

type_synonym rgba = "int \<times> int \<times> int \<times> int"

record image =
  im_w :: nat
  im_h :: nat
  im_px :: "nat \<Rightarrow> nat \<Rightarrow> rgba"

text \<open>The high-resolution square image (lines 262 to 280).\<close>

definition hr_image ::
  "(image \<Rightarrow> int \<Rightarrow> int \<Rightarrow> image) \<Rightarrow> (image \<Rightarrow> int \<Rightarrow> int \<Rightarrow> int \<Rightarrow> image) \<Rightarrow> image \<Rightarrow> int
     \<Rightarrow> py_error + image" where
  "hr_image pil_resize pil_paste_centered im hr =
     (if im_w im = 0 \<or> im_h im = 0 then Inl ZeroDivisionError
      else
        (let scale = max (real_of_int hr / real (im_w im)) (real_of_int hr / real (im_h im));
             new_w = max 1 (py_round (real (im_w im) * scale));
             new_h = max 1 (py_round (real (im_h im) * scale));
             im_resized = pil_resize im new_w new_h
         in if new_w \<noteq> hr \<or> new_h \<noteq> hr
            then Inr (pil_paste_centered im_resized hr ((hr - new_w) div 2) ((hr - new_h) div 2))
            else Inr im_resized))"

text \<open>
  The block average of one cell (lines 288 to 322). The sums and quotients are floats in
  the program and exact here: for the block sizes in use the test of the mean alpha against 0.01
  is the same in both (a mean below it is at least \<open>1 / (25500 \<cdot> ss\<^sup>2)\<close> below), while a colour component
  whose exact mixture is a tie can differ from the program's by one.
\<close>

definition block_pixels :: "(nat \<Rightarrow> nat \<Rightarrow> rgba) \<Rightarrow> nat \<Rightarrow> nat \<Rightarrow> nat \<Rightarrow> rgba list" where
  "block_pixels hr_px ss cy cx =
     concat (map (\<lambda>oy. map (\<lambda>ox. hr_px (cx * ss + ox) (cy * ss + oy)) [0..<ss]) [0..<ss])"

definition add_pixel ::
  "rgba \<Rightarrow> real \<times> real \<times> real \<times> real \<times> nat \<Rightarrow> real \<times> real \<times> real \<times> real \<times> nat" where
  "add_pixel p acc =
     (case p of (r, g, b, a) \<Rightarrow>
        case acc of (accum_r, accum_g, accum_b, accum_a, count) \<Rightarrow>
          (accum_r + of_int r * (of_int a / 255),
           accum_g + of_int g * (of_int a / 255),
           accum_b + of_int b * (of_int a / 255),
           accum_a + of_int a,
           count + 1))"

definition png_cell :: "(nat \<Rightarrow> nat \<Rightarrow> rgba) \<Rightarrow> color \<Rightarrow> nat \<Rightarrow> nat \<Rightarrow> nat \<Rightarrow> color option" where
  "png_cell hr_px bg_rgb ss cy cx =
     (case fold add_pixel (block_pixels hr_px ss cy cx) (0, 0, 0, 0, 0) of
        (accum_r, accum_g, accum_b, accum_a, count) \<Rightarrow>
          if count = 0 then None
          else
            (let avg_a = accum_a / (real count * 255) in
             if avg_a < 1 / 100 then None
             else
               (let avg_r = (if avg_a > 0 then accum_r / (real count * avg_a) else 0);
                    avg_g = (if avg_a > 0 then accum_g / (real count * avg_a) else 0);
                    avg_b = (if avg_a > 0 then accum_b / (real count * avg_a) else 0)
                in case bg_rgb of (bg0, bg1, bg2) \<Rightarrow>
                     Some (py_round (avg_r * avg_a + of_int bg0 * (1 - avg_a)),
                           py_round (avg_g * avg_a + of_int bg1 * (1 - avg_a)),
                           py_round (avg_b * avg_a + of_int bg2 * (1 - avg_a))))))"

definition load_png_sprite ::
  "bool \<Rightarrow> image option \<Rightarrow> (image \<Rightarrow> int \<Rightarrow> int \<Rightarrow> image) \<Rightarrow> (image \<Rightarrow> int \<Rightarrow> int \<Rightarrow> int \<Rightarrow> image)
     \<Rightarrow> int \<Rightarrow> color \<Rightarrow> bool \<Rightarrow> int \<Rightarrow> py_error + sprite option" where
  "load_png_sprite PIL_AVAILABLE opened pil_resize pil_paste_centered
       target_cells bg_rgb use_supersample supersample =
     (if \<not> PIL_AVAILABLE then Inr None
      else
        (case opened of
           None \<Rightarrow> Inr None
         | Some im \<Rightarrow>
             (let cells = target_cells in
              if cells \<le> 0 then Inr None
              else
                (let ss = (if use_supersample then max 1 supersample else 1);
                     hr = cells * ss
                 in case hr_image pil_resize pil_paste_centered im hr of
                      Inl e \<Rightarrow> Inl e
                    | Inr hr_img \<Rightarrow>
                        Inr (Some (map (\<lambda>cy. map (\<lambda>cx. png_cell (im_px hr_img) bg_rgb (nat ss) cy cx)
                                                [0..<nat cells])
                                     [0..<nat cells]))))))"

text \<open>
  The mean coverage alpha of a block, in the specification's words: the sum of the
  alphas over \<open>S\<^sup>2 \<cdot> 255\<close>.
\<close>

definition block_mean_alpha :: "(nat \<Rightarrow> nat \<Rightarrow> rgba) \<Rightarrow> nat \<Rightarrow> nat \<Rightarrow> nat \<Rightarrow> real" where
  "block_mean_alpha hr_px ss cy cx =
     (\<Sum>p\<leftarrow>block_pixels hr_px ss cy cx. (case p of (r, g, b, a) \<Rightarrow> real_of_int a))
       / (real (ss * ss) * 255)"




text \<open>
  A decoded test image for the examples: 2 by 2, red, with alpha 2 in one corner and 0
  elsewhere; and a resize that returns an image of the requested size with the same
  pixel accessor.
\<close>

definition faint_image :: image where
  "faint_image = \<lparr>im_w = 2, im_h = 2,
                   im_px = (\<lambda>x y. (255, 0, 0, if x = 0 \<and> y = 0 then 2 else 0))\<rparr>"

definition keep_pixels_resize :: "image \<Rightarrow> int \<Rightarrow> int \<Rightarrow> image" where
  "keep_pixels_resize im w h = im\<lparr>im_w := nat w, im_h := nat h\<rparr>"

definition keep_pixels_paste :: "image \<Rightarrow> int \<Rightarrow> int \<Rightarrow> int \<Rightarrow> image" where
  "keep_pixels_paste im hr ox oy = im\<lparr>im_w := nat hr, im_h := nat hr\<rparr>"


section \<open>Physics tick of the main loop\<close>

text \<open>
  The position and the velocity of the satellite are Python floats, that is IEEE 754
  binary64 numbers, and the wrap at the end of the tick is sensitive to their rounding.
  So this part keeps the rounding: a float is the real number it denotes, and every
  arithmetic operation rounds its exact result to the nearest double, ties to the even
  significand. The exponent range is left unbounded (no overflow, no subnormals), which
  the values of the simulation never reach.
\<close>

definition float_exp :: "real \<Rightarrow> int" where
  "float_exp x = \<lfloor>log 2 \<bar>x\<bar>\<rfloor>"

definition ulp :: "real \<Rightarrow> real" where
  "ulp x = 2 powr (of_int (float_exp x) - 52)"

definition round_double :: "real \<Rightarrow> real" where
  "round_double x = (if x = 0 then 0 else of_int (py_round (x / ulp x)) * ulp x)"

definition fadd :: "real \<Rightarrow> real \<Rightarrow> real" where
  "fadd a b = round_double (a + b)"

definition fsub :: "real \<Rightarrow> real \<Rightarrow> real" where
  "fsub a b = round_double (a - b)"

definition fmul :: "real \<Rightarrow> real \<Rightarrow> real" where
  "fmul a b = round_double (a * b)"

text \<open>
  \<^verbatim>\<open>x % y\<close> on floats, as CPython computes it: the C \<^verbatim>\<open>fmod\<close>, which is exact and has the
  sign of \<open>x\<close>, followed by one rounded addition of \<open>y\<close> when the signs differ. A zero
  divisor raises.
\<close>

definition c_fmod :: "real \<Rightarrow> real \<Rightarrow> real" where
  "c_fmod x y = x - y * of_int (py_int (x / y))"

definition py_float_mod :: "real \<Rightarrow> real \<Rightarrow> py_error + real" where
  "py_float_mod vx wx =
     (if wx = 0 then Inl ZeroDivisionError
      else
        (let m = c_fmod vx wx in
         if m \<noteq> 0 then (if (wx < 0) \<noteq> (m < 0) then Inr (fadd m wx) else Inr m)
         else Inr 0))"

text \<open>
  The constants of \<open>main\<close> are the doubles nearest to the decimal literals. \<open>TH\<close> is 0.42 in
  \<^verbatim>\<open>newSimONE_V3_MLver7.py\<close> and 0.4 in \<^verbatim>\<open>simONE_Vthree.py\<close>; the rest of the tick is the
  same in both.
\<close>

definition AC :: real where "AC = round_double (5 / 100)"
definition DE :: real where "DE = round_double (98 / 100)"
definition TH :: real where "TH = round_double (42 / 100)"

text \<open>The state of the moving body: the source's \<open>x1, y1, vx1, vy1\<close>.\<close>

record body =
  body_x1 :: real
  body_y1 :: real
  body_vx1 :: real
  body_vy1 :: real

text \<open>
  One tick (lines 546 to 569): thrust for the keys that count as held, the centring
  force, integration, damping, the guards on the terminal size and the wrap. \<open>x0, y0\<close>
  is the integer anchor; \<open>sw, sh\<close> are ints, converted to floats by the \<^verbatim>\<open>%\<close>.
\<close>

definition physics_tick ::
  "bool \<Rightarrow> bool \<Rightarrow> bool \<Rightarrow> bool \<Rightarrow> int \<Rightarrow> int \<Rightarrow> int \<Rightarrow> int \<Rightarrow> body \<Rightarrow> py_error + body" where
  "physics_tick key_w key_s key_a key_d x0 y0 sw0 sh0 b =
     (let vy = (if key_w then fsub (body_vy1 b) TH else body_vy1 b);
          vy = (if key_s then fadd vy TH else vy);
          vx = (if key_a then fsub (body_vx1 b) TH else body_vx1 b);
          vx = (if key_d then fadd vx TH else vx);
          vx = (if body_x1 b < of_int x0 then fadd vx AC else fsub vx AC);
          vy = (if body_y1 b < of_int y0 then fadd vy AC else fsub vy AC);
          x = fadd (body_x1 b) vx;
          y = fadd (body_y1 b) vy;
          vx = fmul vx DE;
          vy = fmul vy DE;
          sw = (if sw0 \<le> 0 then 1 else sw0);
          sh = (if sh0 \<le> 0 then 1 else sh0)
      in case py_float_mod x (round_double (of_int sw)) of
           Inl e \<Rightarrow> Inl e
         | Inr x' \<Rightarrow>
             (case py_float_mod y (round_double (of_int sh)) of
                Inl e \<Rightarrow> Inl e
              | Inr y' \<Rightarrow> Inr \<lparr>body_x1 = x', body_y1 = y', body_vx1 = vx, body_vy1 = vy\<rparr>))"

text \<open>\<open>n\<close> ticks with no key held.\<close>

primrec coast :: "nat \<Rightarrow> int \<Rightarrow> int \<Rightarrow> int \<Rightarrow> int \<Rightarrow> body \<Rightarrow> py_error + body" where
  "coast 0 x0 y0 sw sh b = Inr b"
| "coast (Suc n) x0 y0 sw sh b =
     (case physics_tick False False False False x0 y0 sw sh b of
        Inl e \<Rightarrow> Inl e
      | Inr b' \<Rightarrow> coast n x0 y0 sw sh b')"

text \<open>
  Vocabulary of the physics claims: the velocity magnitude, and the predicate that a
  state has both velocity components within \<open>bound\<close> and its position within the closed
  rectangle of the terminal.
\<close>

definition speed :: "body \<Rightarrow> real" where
  "speed b = sqrt ((body_vx1 b)\<^sup>2 + (body_vy1 b)\<^sup>2)"

definition speed_after :: "py_error + body \<Rightarrow> real option" where
  "speed_after res = (case res of Inl e \<Rightarrow> None | Inr b \<Rightarrow> Some (speed b))"

definition x_after :: "py_error + body \<Rightarrow> real option" where
  "x_after res = (case res of Inl e \<Rightarrow> None | Inr b \<Rightarrow> Some (body_x1 b))"

definition bounded_state :: "real \<Rightarrow> int \<Rightarrow> int \<Rightarrow> py_error + body \<Rightarrow> bool" where
  "bounded_state bound sw sh res =
     (case res of
        Inl e \<Rightarrow> False
      | Inr b \<Rightarrow>
          \<bar>body_vx1 b\<bar> \<le> bound \<and> \<bar>body_vy1 b\<bar> \<le> bound
          \<and> 0 \<le> body_x1 b \<and> body_x1 b \<le> of_int sw \<and> 0 \<le> body_y1 b \<and> body_y1 b \<le> of_int sh)"


section \<open>Properties of the blit\<close>

lemma for_range_append:
  "for_range (xs @ ys) body s =
     (case for_range xs body s of Inl e \<Rightarrow> Inl e | Inr s' \<Rightarrow> for_range ys body s')"
  by (induction xs arbitrary: s) (auto split: sum.splits)

lemma for_range_Suc:
  "for_range [0..<Suc k] body s =
     (case for_range [0..<k] body s of Inl e \<Rightarrow> Inl e | Inr s' \<Rightarrow> body k s')"
  by (simp add: for_range_append split: sum.splits)

lemma length_blit_row_upto [simp]: "length (blit_row_upto enc srow left k crow) = length crow"
  by (simp add: blit_row_upto_def)

lemma nth_blit_row_upto [simp]:
  "cx < length crow \<Longrightarrow> blit_row_upto enc srow left k crow ! cx = blit_cell enc srow left k crow cx"
  by (simp add: blit_row_upto_def)

lemma blit_row_upto_0: "blit_row_upto enc srow left 0 crow = crow"
  by (rule nth_equalityI) (simp_all add: blit_cell_def)

lemma blit_cell_Suc:
  "blit_cell enc srow left (Suc k) crow cx =
     (if int cx = left + int k
      then (case srow ! k of Some c \<Rightarrow> enc c | None \<Rightarrow> crow ! cx)
      else blit_cell enc srow left k crow cx)"
proof (cases "int cx = left + int k")
  case True
  then have "nat (int cx - left) = k" "left \<le> int cx" by simp_all
  then show ?thesis using True by (simp add: blit_cell_def)
next
  case False
  then have "left \<le> int cx \<Longrightarrow> nat (int cx - left) \<noteq> k" by auto
  then have "(left \<le> int cx \<and> nat (int cx - left) < Suc k) = (left \<le> int cx \<and> nat (int cx - left) < k)"
    by (auto simp: less_Suc_eq)
  then show ?thesis using False by (simp add: blit_cell_def)
qed

lemma blit_cell_at_k:
  "int cx = left + int k \<Longrightarrow> blit_cell enc srow left k crow cx = crow ! cx"
  by (simp add: blit_cell_def)

lemma blit_row_upto_Suc:
  "blit_row_upto enc srow left (Suc k) crow =
     (if left + int k < 0 \<or> left + int k \<ge> int (length crow) then blit_row_upto enc srow left k crow
      else case srow ! k of None \<Rightarrow> blit_row_upto enc srow left k crow
           | Some c \<Rightarrow> (blit_row_upto enc srow left k crow)[nat (left + int k) := enc c])"
proof (rule nth_equalityI)
  show "length (blit_row_upto enc srow left (Suc k) crow) = length (if left + int k < 0 \<or> left + int k \<ge> int (length crow) then blit_row_upto enc srow left k crow
      else case srow ! k of None \<Rightarrow> blit_row_upto enc srow left k crow
           | Some c \<Rightarrow> (blit_row_upto enc srow left k crow)[nat (left + int k) := enc c])"
    by (simp split: option.splits)
next
  fix i assume "i < length (blit_row_upto enc srow left (Suc k) crow)"
  then have i: "i < length crow" by simp
  have eq: "int i = left + int k \<longleftrightarrow> 0 \<le> left + int k \<and> i = nat (left + int k)" by auto
  show "blit_row_upto enc srow left (Suc k) crow ! i = (if left + int k < 0 \<or> left + int k \<ge> int (length crow) then blit_row_upto enc srow left k crow
      else case srow ! k of None \<Rightarrow> blit_row_upto enc srow left k crow
           | Some c \<Rightarrow> (blit_row_upto enc srow left k crow)[nat (left + int k) := enc c]) ! i"
    using i
    by (cases "srow ! k") (auto simp: blit_cell_Suc nth_list_update eq blit_cell_at_k)
qed

lemma place_pixels_upto:
  assumes "cy < length canvas" "sy < length sprite" "k \<le> length (sprite ! sy)"
    "length (canvas ! cy) = sw"
  shows "for_range [0..<k] (place_pixel enc sprite left sw cy sy) canvas =
           Inr (canvas[cy := blit_row_upto enc (sprite ! sy) left k (canvas ! cy)])"
  using assms
proof (induction k)
  case 0
  then show ?case by (simp add: blit_row_upto_0)
next
  case (Suc k)
  let ?row = "blit_row_upto enc (sprite ! sy) left k (canvas ! cy)"
  let ?cv = "canvas[cy := ?row]"
  have step: "place_pixel enc sprite left sw cy sy k ?cv =
      Inr (canvas[cy := blit_row_upto enc (sprite ! sy) left (Suc k) (canvas ! cy)])"
    using Suc.prems
    by (auto simp: place_pixel_def py_index_def py_store_def blit_row_upto_Suc Let_def
             split: option.splits)
  from Suc have "for_range [0..<k] (place_pixel enc sprite left sw cy sy) canvas = Inr ?cv" by simp
  then show ?case using step by (simp only: for_range_Suc sum.case)
qed

lemma blit_rows_upto_Suc:
  "blit_rows_upto enc sprite ytop left (Suc j) w canvas cy =
     (if int cy = ytop + int j then blit_row_upto enc (sprite ! j) left w (canvas ! cy)
      else blit_rows_upto enc sprite ytop left j w canvas cy)"
proof (cases "int cy = ytop + int j")
  case True
  then have "nat (int cy - ytop) = j" "ytop \<le> int cy" by simp_all
  then show ?thesis using True by (simp add: blit_rows_upto_def)
next
  case False
  then have "ytop \<le> int cy \<Longrightarrow> nat (int cy - ytop) \<noteq> j" by auto
  then have "(ytop \<le> int cy \<and> nat (int cy - ytop) < Suc j) = (ytop \<le> int cy \<and> nat (int cy - ytop) < j)"
    by (auto simp: less_Suc_eq)
  then show ?thesis using False by (simp add: blit_rows_upto_def)
qed

lemma blit_rows_upto_at_j:
  "int cy = ytop + int j \<Longrightarrow> blit_rows_upto enc sprite ytop left j w canvas cy = canvas ! cy"
  by (simp add: blit_rows_upto_def)

lemma length_blit_rows_upto:
  "length (blit_rows_upto enc sprite ytop left j w canvas cy) = length (canvas ! cy)"
  by (simp add: blit_rows_upto_def)

lemma place_rows_upto:
  assumes "j \<le> length sprite" "\<forall>row \<in> set sprite. length row = w"
    "\<forall>row \<in> set canvas. length row = sw" "sh = length canvas"
  shows "for_range [0..<j] (place_row enc sprite ytop left sh sw w) canvas =
           Inr (map (blit_rows_upto enc sprite ytop left j w canvas) [0..<length canvas])"
  using assms
proof (induction j)
  case 0
  have "map (blit_rows_upto enc sprite ytop left 0 w canvas) [0..<length canvas] = canvas"
    by (rule nth_equalityI) (simp_all add: blit_rows_upto_def)
  then show ?case by simp
next
  case (Suc j)
  let ?cv = "map (blit_rows_upto enc sprite ytop left j w canvas) [0..<length canvas]"
  let ?cv' = "map (blit_rows_upto enc sprite ytop left (Suc j) w canvas) [0..<length canvas]"
  have IH: "for_range [0..<j] (place_row enc sprite ytop left sh sw w) canvas = Inr ?cv"
    using Suc by simp
  have step: "place_row enc sprite ytop left sh sw w j ?cv = Inr ?cv'"
  proof (cases "ytop + int j < 0 \<or> ytop + int j \<ge> int sh")
    case True
    then have "\<And>cy. cy < length canvas \<Longrightarrow> int cy \<noteq> ytop + int j"
      using Suc.prems by auto
    then have "?cv' = ?cv"
      by (intro nth_equalityI) (simp_all add: blit_rows_upto_Suc)
    with True show ?thesis by (simp add: place_row_def)
  next
    case False
    define cy where "cy = nat (ytop + int j)"
    have cy: "cy < length canvas" "int cy = ytop + int j"
      using False Suc.prems unfolding cy_def by linarith+
    have j: "j < length sprite" using Suc.prems by simp
    then have lw: "length (sprite ! j) = w" using Suc.prems by simp
    have lc: "length (canvas ! cy) = sw" using cy Suc.prems by simp
    have old: "?cv ! cy = canvas ! cy" using cy by (simp add: blit_rows_upto_at_j)
    have "for_range [0..<w] (place_pixel enc sprite left sw cy j) ?cv =
            Inr (?cv[cy := blit_row_upto enc (sprite ! j) left w (?cv ! cy)])"
      by (rule place_pixels_upto) (use cy j lw lc old in simp_all)
    moreover have "?cv[cy := blit_row_upto enc (sprite ! j) left w (canvas ! cy)] = ?cv'"
    proof (rule nth_equalityI)
      show "length (?cv[cy := blit_row_upto enc (sprite ! j) left w (canvas ! cy)]) = length ?cv'"
        by simp
    next
      fix i assume "i < length (?cv[cy := blit_row_upto enc (sprite ! j) left w (canvas ! cy)])"
      then have i: "i < length canvas" by simp
      have "int i = ytop + int j \<longleftrightarrow> i = cy" using cy by auto
      then show "?cv[cy := blit_row_upto enc (sprite ! j) left w (canvas ! cy)] ! i = ?cv' ! i"
        using i cy by (auto simp: nth_list_update blit_rows_upto_Suc)
    qed
    ultimately show ?thesis using False old by (simp add: place_row_def Let_def cy_def)
  qed
  show ?case using IH step by (simp only: for_range_Suc sum.case)
qed

lemma rectangular_rows:
  assumes "rectangular g"
  shows "\<forall>row \<in> set g. length row = (if length g \<noteq> 0 then length (g ! 0) else 0)"
proof (cases g)
  case Nil
  then show ?thesis by simp
next
  case (Cons r rs)
  with assms show ?thesis by (simp add: rectangular_def list_all_iff)
qed

lemma sprite_at_nth:
  "sprite_at sprite i j =
     (if 0 \<le> i \<and> i < int (length sprite) \<and> 0 \<le> j
         \<and> j < int (if length sprite \<noteq> 0 then length (sprite ! 0) else 0)
      then sprite ! nat i ! nat j else None)"
  by (cases sprite) (auto simp: sprite_at_def)

lemma place_sprite_on_canvas_cells:
  assumes "rectangular sprite" and "rectangular canvas"
  shows "\<exists>canvas'. place_sprite_on_canvas enc canvas sprite ytop left = Inr canvas'
           \<and> length canvas' = length canvas
           \<and> (\<forall>cy < length canvas. length (canvas' ! cy) = length (canvas ! cy)
                \<and> (\<forall>cx < length (canvas ! cy).
                      canvas' ! cy ! cx =
                        (case sprite_at sprite (int cy - ytop) (int cx - left) of
                           Some c \<Rightarrow> enc c | None \<Rightarrow> canvas ! cy ! cx)))"
proof -
  define w where "w = (if length sprite \<noteq> 0 then length (sprite ! 0) else 0)"
  define sw where "sw = (if length canvas \<noteq> 0 then length (canvas ! 0) else 0)"
  define cv' where "cv' = map (blit_rows_upto enc sprite ytop left (length sprite) w canvas) [0..<length canvas]"
  have srows: "\<forall>row \<in> set sprite. length row = w"
    unfolding w_def by (rule rectangular_rows[OF assms(1)])
  have crows: "\<forall>row \<in> set canvas. length row = sw"
    unfolding sw_def by (rule rectangular_rows[OF assms(2)])
  have "for_range [0..<length sprite] (place_row enc sprite ytop left (length canvas) sw w) canvas = Inr cv'"
    unfolding cv'_def by (rule place_rows_upto[OF le_refl srows crows refl])
  then have run: "place_sprite_on_canvas enc canvas sprite ytop left = Inr cv'"
    by (simp add: place_sprite_on_canvas_def Let_def w_def sw_def)
  have len: "length cv' = length canvas" by (simp add: cv'_def)
  have rowlen: "length (cv' ! cy) = length (canvas ! cy)" if "cy < length canvas" for cy
    using that by (simp add: cv'_def length_blit_rows_upto)
  have cells: "cv' ! cy ! cx =
      (case sprite_at sprite (int cy - ytop) (int cx - left) of
         Some c \<Rightarrow> enc c | None \<Rightarrow> canvas ! cy ! cx)"
    if cy: "cy < length canvas" and cx: "cx < length (canvas ! cy)" for cy cx
  proof (cases "ytop \<le> int cy \<and> nat (int cy - ytop) < length sprite")
    case False
    then have "sprite_at sprite (int cy - ytop) (int cx - left) = None"
      by (auto simp: sprite_at_def)
    moreover have "cv' ! cy = canvas ! cy"
      using False cy by (auto simp: cv'_def blit_rows_upto_def)
    ultimately show ?thesis by simp
  next
    case True
    then have row: "cv' ! cy = blit_row_upto enc (sprite ! nat (int cy - ytop)) left w (canvas ! cy)"
      using cy by (simp add: cv'_def blit_rows_upto_def)
    have i: "0 \<le> int cy - ytop" "int cy - ytop < int (length sprite)" using True by auto
    show ?thesis
    proof (cases "left \<le> int cx \<and> nat (int cx - left) < w")
      case False
      then have "sprite_at sprite (int cy - ytop) (int cx - left) = None"
        unfolding sprite_at_nth w_def by auto
      moreover have "cv' ! cy ! cx = canvas ! cy ! cx"
        using False cx by (auto simp: row blit_cell_def)
      ultimately show ?thesis by simp
    next
      case inside: True
      then have j: "0 \<le> int cx - left" "int cx - left < int w" by auto
      have "sprite_at sprite (int cy - ytop) (int cx - left) =
              sprite ! nat (int cy - ytop) ! nat (int cx - left)"
        unfolding sprite_at_nth using i j by (simp add: w_def)
      moreover have "cv' ! cy ! cx =
         (case sprite ! nat (int cy - ytop) ! nat (int cx - left) of
            Some c \<Rightarrow> enc c | None \<Rightarrow> canvas ! cy ! cx)"
        using inside cx by (simp add: row blit_cell_def)
      ultimately show ?thesis by simp
    qed
  qed
  show ?thesis
    using run len rowlen cells by (intro exI[of _ cv']) simp
qed

text \<open>
  Claim C9. For rectangular grids the blit never raises, keeps the canvas dimensions, and
  the resulting cell at \<open>(cy, cx)\<close> is the encoding of the sprite cell mapped onto it when
  that cell exists and has a colour, and the old canvas cell in every other case
  (transparent sprite cell, outside the sprite's footprint). Sprite cells mapped outside
  the canvas write nothing, since every canvas coordinate is accounted for. The new cell
  depends on the sprite colour alone: nothing is blended with the old content.
\<close>

theorem blit_overwrites_exactly_opaque_cells:
  assumes "rectangular sprite" and "rectangular canvas"
  shows "\<exists>canvas'. place_sprite_on_canvas enc canvas sprite ytop left = Inr canvas'
           \<and> length canvas' = length canvas
           \<and> (\<forall>cy < length canvas. length (canvas' ! cy) = length (canvas ! cy)
                \<and> (\<forall>cx < length (canvas ! cy).
                      canvas' ! cy ! cx =
                        (case sprite_at sprite (int cy - ytop) (int cx - left) of
                           Some c \<Rightarrow> enc c | None \<Rightarrow> canvas ! cy ! cx)))"
  using assms by (rule place_sprite_on_canvas_cells)

text \<open>A one-row sprite with an opaque and a transparent cell, placed at row 1, column 1.\<close>

theorem blit_witness:
  "rectangular [[Some (7, 8, 9), None :: color option]] \<and> rectangular [[0, 0, 0], [0, 0, 0 :: int]]
   \<and> (\<exists>canvas'. place_sprite_on_canvas fst [[0, 0, 0], [0, 0, 0]] [[Some (7, 8, 9), None]] 1 1 = Inr canvas'
         \<and> length canvas' = 2 \<and> canvas' ! 1 ! 1 = 7 \<and> canvas' ! 1 ! 2 = 0 \<and> canvas' ! 0 ! 1 = 0)"
proof -
  let ?S = "[[Some (7, 8, 9), None :: color option]]"
  let ?C = "[[0, 0, 0], [0, 0, 0 :: int]]"
  have s: "rectangular ?S" by (simp add: rectangular_def)
  have c: "rectangular ?C" by (simp add: rectangular_def)
  from blit_overwrites_exactly_opaque_cells[OF s c, of fst 1 1]
  obtain canvas' where run: "place_sprite_on_canvas fst ?C ?S 1 1 = Inr canvas'"
    and len: "length canvas' = length ?C"
    and cells: "\<And>cy cx. cy < length ?C \<Longrightarrow> cx < length (?C ! cy) \<Longrightarrow>
        canvas' ! cy ! cx = (case sprite_at ?S (int cy - 1) (int cx - 1) of
                           Some c \<Rightarrow> fst c | None \<Rightarrow> ?C ! cy ! cx)"
    by blast
  have "canvas' ! 1 ! 1 = 7" using cells[of 1 1] by (simp add: sprite_at_def)
  moreover have "canvas' ! 1 ! 2 = 0" using cells[of 1 2] by (simp add: sprite_at_def)
  moreover have "canvas' ! 0 ! 1 = 0" using cells[of 0 1] by (simp add: sprite_at_def)
  ultimately show ?thesis using s c run len by simp
qed


section \<open>Properties of the frame composition\<close>

lemma length_overlay_row [simp]: "length (overlay_row f k row) = length row"
  by (simp add: overlay_row_def)

lemma nth_overlay_row [simp]:
  "cx < length row \<Longrightarrow> overlay_row f k row ! cx = (if cx < k then f cx else row ! cx)"
  by (simp add: overlay_row_def)

lemma overlay_row_0 [simp]: "overlay_row f 0 row = row"
  by (rule nth_equalityI) simp_all

lemma overlay_row_Suc:
  "k < length row \<Longrightarrow> (overlay_row f k row)[k := f k] = overlay_row f (Suc k) row"
  by (rule nth_equalityI) (auto simp: nth_list_update less_Suc_eq)

lemma store_loop:
  assumes "r < length cv" "k \<le> length (cv ! r)"
    and body: "\<And>i c. i < k \<Longrightarrow> length c = length cv \<Longrightarrow> length (c ! r) = length (cv ! r) \<Longrightarrow>
                 body i c = Inr (c[r := (c ! r)[i := f i]])"
  shows "for_range [0..<k] body cv = Inr (cv[r := overlay_row f k (cv ! r)])"
  using assms
proof (induction k)
  case 0
  then show ?case by simp
next
  case (Suc k)
  let ?c = "cv[r := overlay_row f k (cv ! r)]"
  have IH: "for_range [0..<k] body cv = Inr ?c"
    using Suc by simp
  have "body k ?c = Inr (?c[r := (?c ! r)[k := f k]])"
    using Suc.prems by (intro Suc.prems(3)) simp_all
  also have "?c[r := (?c ! r)[k := f k]] = cv[r := overlay_row f (Suc k) (cv ! r)]"
    using Suc.prems by (simp add: overlay_row_Suc)
  finally show ?case using IH by (simp only: for_range_Suc sum.case)
qed

lemma loop_flow_append:
  "loop_flow (xs @ ys) body s =
     (case loop_flow xs body s of
        Inl e \<Rightarrow> Inl e
      | Inr (Break s') \<Rightarrow> Inr (Break s')
      | Inr (Next s') \<Rightarrow> loop_flow ys body s')"
  by (induction xs arbitrary: s) (auto split: sum.splits flow.splits)

lemma loop_flow_Suc:
  "loop_flow [0..<Suc k] body s =
     (case loop_flow [0..<k] body s of
        Inl e \<Rightarrow> Inl e
      | Inr (Break s') \<Rightarrow> Inr (Break s')
      | Inr (Next s') \<Rightarrow> body k s')"
  by (simp add: loop_flow_append split: sum.splits flow.splits)

lemma break_loop:
  assumes brk: "\<And>i c. i \<ge> stop_at \<Longrightarrow> body i c = Inr (Break c)"
    and nxt: "\<And>i. i < stop_at \<Longrightarrow> i < m \<Longrightarrow> body i (sq i) = Inr (Next (sq (Suc i)))"
    and "n \<le> m"
  shows "loop_flow [0..<n] body (sq 0) =
           Inr ((if n \<le> stop_at then Next else Break) (sq (min n stop_at)))"
  using \<open>n \<le> m\<close>
proof (induction n)
  case 0
  then show ?case by simp
next
  case (Suc n)
  then have IH: "loop_flow [0..<n] body (sq 0) =
           Inr ((if n \<le> stop_at then Next else Break) (sq (min n stop_at)))" by simp
  show ?case
  proof (cases "n < stop_at")
    case True
    then have "body n (sq n) = Inr (Next (sq (Suc n)))" using nxt[of n] Suc.prems by simp
    then show ?thesis using True IH by (simp add: loop_flow_Suc min_def del: upt_Suc)
  next
    case False
    then have "body n (sq stop_at) = Inr (Break (sq stop_at))" using brk[of n] by simp
    then show ?thesis using False IH by (auto simp: loop_flow_Suc min_def simp del: upt_Suc)
  qed
qed

lemma for_break_closed:
  assumes brk: "\<And>i c. i \<ge> stop_at \<Longrightarrow> body i c = Inr (Break c)"
    and nxt: "\<And>i. i < stop_at \<Longrightarrow> i < n \<Longrightarrow> body i (sq i) = Inr (Next (sq (Suc i)))"
  shows "for_break [0..<n] body (sq 0) = Inr (sq (min n stop_at))"
  unfolding for_break_def using break_loop[of stop_at body n sq n, OF brk nxt] by simp

lemma gridD: "grid sh sw cv \<Longrightarrow> length cv = sh"
  "grid sh sw cv \<Longrightarrow> cy < sh \<Longrightarrow> length (cv ! cy) = sw"
  by (auto simp: grid_def list_all_length)

lemma gridI: "length cv = sh \<Longrightarrow> (\<And>cy. cy < sh \<Longrightarrow> length (cv ! cy) = sw) \<Longrightarrow> grid sh sw cv"
  by (auto simp: grid_def list_all_length)

lemma grid_replicate: "grid sh sw (replicate sh (replicate sw c))"
  by (simp add: grid_def list_all_length)

lemma grid_rectangular: "grid sh sw cv \<Longrightarrow> rectangular cv"
  by (cases cv) (auto simp: grid_def rectangular_def list_all_iff)

lemma grid_update: "grid sh sw cv \<Longrightarrow> length row = sw \<Longrightarrow> grid sh sw (cv[r := row])"
  by (cases "r < length cv") (auto simp: grid_def list_all_length nth_list_update)

lemma draw_controls_cells:
  assumes g: "grid sh sw canvas" and sh: "0 < sh"
  shows "\<exists>cv. draw_controls ctrl controls sw canvas = Inr cv \<and> grid sh sw cv
           \<and> (\<forall>cy<sh. \<forall>cx<sw. cv ! cy ! cx =
                 (if Suc cy = sh \<and> cx < length controls then ctrl (controls ! cx)
                  else canvas ! cy ! cx))"
proof -
  define controls' where "controls' = (if length controls \<ge> sw then take sw controls else controls)"
  define k where "k = length controls'"
  define r where "r = sh - 1"
  define f where "f = (\<lambda>i. ctrl (controls' ! i))"
  define cv where "cv = canvas[r := overlay_row f k (canvas ! r)]"
  have len: "length canvas = sh" and r: "r < length canvas" and rowr: "length (canvas ! r) = sw"
    using g sh by (simp_all add: gridD r_def)
  have k: "k \<le> sw" "k = min (length controls) sw" by (auto simp: k_def controls'_def)
  have ctl: "\<And>i. i < k \<Longrightarrow> controls' ! i = controls ! i"
    by (auto simp: k_def controls'_def)
  have "for_range [0..<k]
          (\<lambda>i cv. if cv = [] then Inl IndexError
                else (case py_store (last cv) i (ctrl (controls' ! i)) of
                        Inl e \<Rightarrow> Inl e
                      | Inr row' \<Rightarrow> Inr (cv[length cv - 1 := row'])))
          canvas = Inr (canvas[r := overlay_row f k (canvas ! r)])"
  proof (rule store_loop)
    show "r < length canvas" by (rule r)
    show "k \<le> length (canvas ! r)" using k rowr by simp
  next
    fix i and c :: "'a list list"
    assume i: "i < k" and lc: "length c = length canvas" and lr: "length (c ! r) = length (canvas ! r)"
    have ne: "c \<noteq> []" using lc len sh by auto
    have "last c = c ! r" using ne lc len by (simp add: last_conv_nth r_def)
    then show "(if c = [] then Inl IndexError
          else case py_store (last c) i (ctrl (controls' ! i)) of Inl e \<Rightarrow> Inl e
               | Inr row' \<Rightarrow> Inr (c[length c - 1 := row'])) = Inr (c[r := (c ! r)[i := f i]])"
      using ne i k lr rowr lc len by (simp add: py_store_def f_def r_def)
  qed
  then have run: "draw_controls ctrl controls sw canvas = Inr cv"
    by (simp add: draw_controls_def Let_def controls'_def[symmetric] k_def[symmetric] cv_def)
  have gr: "grid sh sw cv" unfolding cv_def using g rowr by (intro grid_update) simp_all
  have cells: "cv ! cy ! cx =
      (if Suc cy = sh \<and> cx < length controls then ctrl (controls ! cx) else canvas ! cy ! cx)"
    if "cy < sh" "cx < sw" for cy cx
  proof (cases "cy = r")
    case True
    then have "Suc cy = sh" using sh by (simp add: r_def)
    moreover have "cx < k \<longleftrightarrow> cx < length controls" using that k by simp
    ultimately show ?thesis using True that r rowr ctl[of cx] by (simp add: cv_def f_def)
  next
    case False
    then have "Suc cy \<noteq> sh" by (auto simp: r_def)
    then show ?thesis using False by (simp add: cv_def)
  qed
  show ?thesis using run gr cells by blast
qed

lemma draw_hud_line_closed:
  assumes g: "grid sh sw canvas" and hi: "hi < sh"
  shows "draw_hud_line hud_cell line sw hi canvas =
           Inr (canvas[hi := overlay_row (\<lambda>cx. hud_cell (line ! cx)) (min (length line) sw) (canvas ! hi)])"
proof -
  define f where "f = (\<lambda>cx. hud_cell (line ! cx))"
  define sq where "sq = (\<lambda>i. canvas[hi := overlay_row f i (canvas ! hi)])"
  have len: "length canvas = sh" and row: "length (canvas ! hi) = sw"
    using g hi by (simp_all add: gridD)
  have sq0: "sq 0 = canvas" by (simp add: sq_def)
  have "for_break [0..<length line]
       (\<lambda>ci cv. if ci \<ge> sw then Inr (Break cv)
                else (case py_index cv hi of
                        Inl e \<Rightarrow> Inl e
                      | Inr row \<Rightarrow>
                          (case py_store row ci (hud_cell (line ! ci)) of
                             Inl e \<Rightarrow> Inl e
                           | Inr row' \<Rightarrow> Inr (Next (cv[hi := row'])))))
       (sq 0) = Inr (sq (min (length line) sw))"
  proof (rule for_break_closed)
    fix i and c :: "'a list list"
    assume "sw \<le> i"
    then show "(if sw \<le> i then Inr (Break c)
          else case py_index c hi of Inl e \<Rightarrow> Inl e
               | Inr row \<Rightarrow> (case py_store row i (hud_cell (line ! i)) of Inl e \<Rightarrow> Inl e
                    | Inr row' \<Rightarrow> Inr (Next (c[hi := row'])))) = Inr (Break c)"
      by simp
  next
    fix i assume i: "i < sw" "i < length line"
    have "(overlay_row f i (canvas ! hi))[i := f i] = overlay_row f (Suc i) (canvas ! hi)"
      using i row by (simp add: overlay_row_Suc)
    then show "(if sw \<le> i then Inr (Break (sq i))
          else case py_index (sq i) hi of Inl e \<Rightarrow> Inl e
               | Inr row \<Rightarrow> (case py_store row i (hud_cell (line ! i)) of Inl e \<Rightarrow> Inl e
                    | Inr row' \<Rightarrow> Inr (Next ((sq i)[hi := row'])))) = Inr (Next (sq (Suc i)))"
      using i hi len row by (simp add: sq_def py_index_def py_store_def f_def)
  qed
  then show ?thesis by (simp add: draw_hud_line_def sq0 sq_def f_def)
qed

lemma length_hud_rows [simp]: "length (hud_rows hud_cell hud_lines sw j canvas) = length canvas"
  by (simp add: hud_rows_def)

lemma nth_hud_rows:
  "cy < length canvas \<Longrightarrow> hud_rows hud_cell hud_lines sw j canvas ! cy =
     (if cy < j then overlay_row (\<lambda>cx. hud_cell (hud_lines ! cy ! cx))
                      (min (length (hud_lines ! cy)) sw) (canvas ! cy)
      else canvas ! cy)"
  by (simp add: hud_rows_def)

lemma grid_hud_rows: "grid sh sw canvas \<Longrightarrow> grid sh sw (hud_rows hud_cell hud_lines sw j canvas)"
  by (rule gridI) (auto simp: nth_hud_rows gridD)

lemma hud_rows_0: "hud_rows hud_cell hud_lines sw 0 canvas = canvas"
  by (rule nth_equalityI) (simp_all add: nth_hud_rows)

lemma hud_rows_Suc:
  "j < length canvas \<Longrightarrow>
   (hud_rows hud_cell hud_lines sw j canvas)
     [j := overlay_row (\<lambda>cx. hud_cell (hud_lines ! j ! cx)) (min (length (hud_lines ! j)) sw) (canvas ! j)]
   = hud_rows hud_cell hud_lines sw (Suc j) canvas"
  by (rule nth_equalityI) (auto simp: nth_hud_rows nth_list_update less_Suc_eq)

lemma draw_hud_closed:
  assumes g: "grid sh sw canvas"
  shows "draw_hud hud_cell hud_lines sh sw canvas =
           Inr (hud_rows hud_cell hud_lines sw (min (length hud_lines) (nat (int sh - 2))) canvas)"
proof -
  define sq where "sq = (\<lambda>j. hud_rows hud_cell hud_lines sw j canvas)"
  have len: "length canvas = sh" using g by (simp add: gridD)
  have "for_break [0..<length hud_lines]
       (\<lambda>hi cv. if int hi \<ge> int sh - 2 then Inr (Break cv)
                else (case draw_hud_line hud_cell (hud_lines ! hi) sw hi cv of
                        Inl e \<Rightarrow> Inl e
                      | Inr cv' \<Rightarrow> Inr (Next cv')))
       (sq 0) = Inr (sq (min (length hud_lines) (nat (int sh - 2))))"
  proof (rule for_break_closed)
    fix i and c :: "'a list list"
    assume "nat (int sh - 2) \<le> i"
    then have "int sh - 2 \<le> int i" by linarith
    then show "(if int sh - 2 \<le> int i then Inr (Break c)
          else case draw_hud_line hud_cell (hud_lines ! i) sw i c of Inl e \<Rightarrow> Inl e
               | Inr cv' \<Rightarrow> Inr (Next cv')) = Inr (Break c)"
      by simp
  next
    fix i assume i: "i < nat (int sh - 2)" "i < length hud_lines"
    then have lt: "\<not> int sh - 2 \<le> int i" and ish: "i < sh" by linarith+
    have "draw_hud_line hud_cell (hud_lines ! i) sw i (sq i) =
            Inr ((sq i)[i := overlay_row (\<lambda>cx. hud_cell (hud_lines ! i ! cx))
                               (min (length (hud_lines ! i)) sw) (sq i ! i)])"
      unfolding sq_def by (rule draw_hud_line_closed[OF grid_hud_rows[OF g] ish])
    moreover have "sq i ! i = canvas ! i" using ish len by (simp add: sq_def nth_hud_rows)
    ultimately have "draw_hud_line hud_cell (hud_lines ! i) sw i (sq i) = Inr (sq (Suc i))"
      using ish len by (simp add: sq_def hud_rows_Suc)
    then show "(if int sh - 2 \<le> int i then Inr (Break (sq i))
          else case draw_hud_line hud_cell (hud_lines ! i) sw i (sq i) of Inl e \<Rightarrow> Inl e
               | Inr cv' \<Rightarrow> Inr (Next cv')) = Inr (Next (sq (Suc i)))"
      using lt by simp
  qed
  then show ?thesis by (simp add: draw_hud_def sq_def hud_rows_0)
qed

lemma draw_hud_cells:
  assumes g: "grid sh sw canvas"
  shows "\<exists>cv. draw_hud hud_cell hud_lines sh sw canvas = Inr cv \<and> grid sh sw cv
           \<and> (\<forall>cy<sh. \<forall>cx<sw. cv ! cy ! cx =
                 (if int cy < int sh - 2 \<and> cy < length hud_lines \<and> cx < length (hud_lines ! cy)
                  then hud_cell (hud_lines ! cy ! cx) else canvas ! cy ! cx))"
proof -
  let ?cv = "hud_rows hud_cell hud_lines sw (min (length hud_lines) (nat (int sh - 2))) canvas"
  have "?cv ! cy ! cx =
      (if int cy < int sh - 2 \<and> cy < length hud_lines \<and> cx < length (hud_lines ! cy)
       then hud_cell (hud_lines ! cy ! cx) else canvas ! cy ! cx)"
    if "cy < sh" "cx < sw" for cy cx
  proof -
    have "cy < min (length hud_lines) (nat (int sh - 2)) \<longleftrightarrow> int cy < int sh - 2 \<and> cy < length hud_lines"
      by auto
    then show ?thesis using that gridD[OF g] by (simp add: nth_hud_rows)
  qed
  then show ?thesis using draw_hud_closed[OF g] grid_hud_rows[OF g] by blast
qed

lemma place_sprite_grid_cells:
  assumes "rectangular sprite" and g: "grid sh sw canvas"
  shows "\<exists>cv. place_sprite_on_canvas enc canvas sprite ytop left = Inr cv \<and> grid sh sw cv
           \<and> (\<forall>cy<sh. \<forall>cx<sw. cv ! cy ! cx =
                 (case sprite_at sprite (int cy - ytop) (int cx - left) of
                    Some c \<Rightarrow> enc c | None \<Rightarrow> canvas ! cy ! cx))"
proof -
  from place_sprite_on_canvas_cells[OF assms(1) grid_rectangular[OF g], of enc ytop left]
  obtain cv where run: "place_sprite_on_canvas enc canvas sprite ytop left = Inr cv"
    and len: "length cv = length canvas"
    and rows: "\<And>cy. cy < length canvas \<Longrightarrow> length (cv ! cy) = length (canvas ! cy)"
    and cells: "\<And>cy cx. cy < length canvas \<Longrightarrow> cx < length (canvas ! cy) \<Longrightarrow>
        cv ! cy ! cx = (case sprite_at sprite (int cy - ytop) (int cx - left) of
                    Some c \<Rightarrow> enc c | None \<Rightarrow> canvas ! cy ! cx)"
    by blast
  have "grid sh sw cv" using len rows gridD[OF g] by (intro gridI) simp_all
  then show ?thesis using run cells gridD[OF g] by auto
qed

lemma compose_frame_cells:
  assumes rp: "rectangular planet_sprite" and rs: "rectangular sat_sprite" and sh: "0 < sh"
  shows "\<exists>cv. compose_frame bg_cell ctrl_cell bg_color_block hud_cell controls sh sw
                 planet_sprite ptop pleft sat_sprite stop sleft debug hud_lines = Inr cv
           \<and> grid sh sw cv
           \<and> (\<forall>cy<sh. \<forall>cx<sw. cv ! cy ! cx =
                 frame_cell bg_cell ctrl_cell bg_color_block hud_cell controls sh sw
                   planet_sprite ptop pleft sat_sprite stop sleft debug hud_lines cy cx)"
proof -
  let ?c0 = "replicate sh (replicate sw bg_cell)"
  have g0: "grid sh sw ?c0" by (rule grid_replicate)
  from draw_controls_cells[OF g0 sh, of ctrl_cell controls]
  obtain c1 where r1: "draw_controls ctrl_cell controls sw ?c0 = Inr c1" and g1: "grid sh sw c1"
    and e1: "\<And>cy cx. cy < sh \<Longrightarrow> cx < sw \<Longrightarrow> c1 ! cy ! cx =
                 (if Suc cy = sh \<and> cx < length controls then ctrl_cell (controls ! cx)
                  else ?c0 ! cy ! cx)"
    by blast
  from place_sprite_grid_cells[OF rp g1, of bg_color_block ptop pleft]
  obtain c2 where r2: "place_sprite_on_canvas bg_color_block c1 planet_sprite ptop pleft = Inr c2"
    and g2: "grid sh sw c2"
    and e2: "\<And>cy cx. cy < sh \<Longrightarrow> cx < sw \<Longrightarrow> c2 ! cy ! cx =
                 (case sprite_at planet_sprite (int cy - ptop) (int cx - pleft) of
                    Some c \<Rightarrow> bg_color_block c | None \<Rightarrow> c1 ! cy ! cx)"
    by blast
  from place_sprite_grid_cells[OF rs g2, of bg_color_block stop sleft]
  obtain c3 where r3: "place_sprite_on_canvas bg_color_block c2 sat_sprite stop sleft = Inr c3"
    and g3: "grid sh sw c3"
    and e3: "\<And>cy cx. cy < sh \<Longrightarrow> cx < sw \<Longrightarrow> c3 ! cy ! cx =
                 (case sprite_at sat_sprite (int cy - stop) (int cx - sleft) of
                    Some c \<Rightarrow> bg_color_block c | None \<Rightarrow> c2 ! cy ! cx)"
    by blast
  from draw_hud_cells[OF g3, of hud_cell hud_lines]
  obtain c4 where r4: "draw_hud hud_cell hud_lines sh sw c3 = Inr c4" and g4: "grid sh sw c4"
    and e4: "\<And>cy cx. cy < sh \<Longrightarrow> cx < sw \<Longrightarrow> c4 ! cy ! cx =
                 (if int cy < int sh - 2 \<and> cy < length hud_lines \<and> cx < length (hud_lines ! cy)
                  then hud_cell (hud_lines ! cy ! cx) else c3 ! cy ! cx)"
    by blast
  show ?thesis
  proof (cases debug)
    case True
    then have "compose_frame bg_cell ctrl_cell bg_color_block hud_cell controls sh sw
                 planet_sprite ptop pleft sat_sprite stop sleft debug hud_lines = Inr c4"
      using r1 r2 r3 r4 by (simp add: compose_frame_def)
    moreover have "c4 ! cy ! cx = frame_cell bg_cell ctrl_cell bg_color_block hud_cell controls sh sw
                   planet_sprite ptop pleft sat_sprite stop sleft debug hud_lines cy cx"
      if "cy < sh" "cx < sw" for cy cx
      using that True by (simp add: frame_cell_def e4 e3 e2 e1 split: option.splits)
    ultimately show ?thesis using g4 by blast
  next
    case False
    then have "compose_frame bg_cell ctrl_cell bg_color_block hud_cell controls sh sw
                 planet_sprite ptop pleft sat_sprite stop sleft debug hud_lines = Inr c3"
      using r1 r2 r3 by (simp add: compose_frame_def)
    moreover have "c3 ! cy ! cx = frame_cell bg_cell ctrl_cell bg_color_block hud_cell controls sh sw
                   planet_sprite ptop pleft sat_sprite stop sleft debug hud_lines cy cx"
      if "cy < sh" "cx < sw" for cy cx
      using that False by (simp add: frame_cell_def e3 e2 e1 split: option.splits)
    ultimately show ?thesis using g3 by blast
  qed
qed

lemma compose_frame_cell_of:
  assumes "rectangular planet_sprite" "rectangular sat_sprite" "cy < sh" "cx < sw"
  shows "cell_of (compose_frame bg_cell ctrl_cell bg_color_block hud_cell controls sh sw
                 planet_sprite ptop pleft sat_sprite stop sleft debug hud_lines) cy cx =
           Some (frame_cell bg_cell ctrl_cell bg_color_block hud_cell controls sh sw
                   planet_sprite ptop pleft sat_sprite stop sleft debug hud_lines cy cx)"
proof -
  have "0 < sh" using assms(3) by simp
  from compose_frame_cells[OF assms(1,2) this, of bg_cell ctrl_cell bg_color_block hud_cell
      controls sw ptop pleft stop sleft debug hud_lines]
  obtain cv where "compose_frame bg_cell ctrl_cell bg_color_block hud_cell controls sh sw
                 planet_sprite ptop pleft sat_sprite stop sleft debug hud_lines = Inr cv"
    and "grid sh sw cv"
    and "\<And>cy cx. cy < sh \<Longrightarrow> cx < sw \<Longrightarrow> cv ! cy ! cx =
                 frame_cell bg_cell ctrl_cell bg_color_block hud_cell controls sh sw
                   planet_sprite ptop pleft sat_sprite stop sleft debug hud_lines cy cx"
    by blast
  then show ?thesis using assms(3,4) by (simp add: cell_of_def gridD)
qed

text \<open>
  Claim C1, as the code has it. The statements of the loop body draw the fill, then the
  control hint, then the planet, then the satellite, then the overlay. So every cell of
  the frame is decided by the layering \<open>frame_cell\<close>: the overlay character where the
  overlay writes, else the satellite's colour block where the satellite has a colour, else
  the planet's, else the hint character in the last row, else the fill. The same holds in
  \<^verbatim>\<open>simONE_Vthree.py\<close>, which has no overlay.
\<close>

theorem frame_layering:
  assumes "rectangular planet_sprite" "rectangular sat_sprite" "cy < sh" "cx < sw"
  shows "cell_of (render_frame bg_color_block fg_on_bg_char bg_rgb sh sw
                    planet_sprite y0 x0 sat_sprite sat_h sat_w y1 x1 debug hud_lines) cy cx =
           Some (frame_cell (bg_color_block bg_rgb) (fg_on_bg_char (245, 245, 245) bg_rgb)
                   bg_color_block (fg_on_bg_char (245, 245, 245) bg_rgb) controls_text sh sw
                   planet_sprite (y0 - int (length planet_sprite) div 2)
                                 (x0 - int (length planet_sprite) div 2)
                   sat_sprite (py_round y1 - int sat_h div 2) (py_round x1 - int sat_w div 2)
                   debug hud_lines cy cx)
       \<and> cell_of (render_frame_vthree bg_block sh sw
                    planet_sprite y0 x0 sat_sprite sat_h sat_w y1 x1) cy cx =
           Some (frame_cell '' '' (\<lambda>ch. [ch]) bg_block (\<lambda>ch. [ch]) controls_text_vthree sh sw
                   planet_sprite (y0 - int (length planet_sprite) div 2)
                                 (x0 - int (length planet_sprite) div 2)
                   sat_sprite (py_int y1 - int sat_h div 2) (py_int x1 - int sat_w div 2)
                   False [] cy cx)"
  using assms by (simp add: render_frame_def render_frame_vthree_def Let_def compose_frame_cell_of)

lemma py_round_of_int [simp]: "py_round (of_int n) = n"
  by (simp add: py_round_def)

lemma py_round_numeral [simp]: "py_round (numeral n) = numeral n"
  using py_round_of_int[of "numeral n"] by simp

lemma rectangular_demo: "rectangular demo_planet" "rectangular demo_sat"
  by (simp_all add: rectangular_def demo_planet_def demo_sat_def list_all_iff)

text \<open>
  Claim C1, as stated, fails. On an 80 by 24 terminal with the satellite at \<open>(x1, y1) =
  (10, 23)\<close> the hint character \<open>H\<close> at column 10 of the last row lies under an opaque
  satellite cell, and the cell that remains in the frame is the satellite's colour block,
  not the hint character.
\<close>

theorem hint_under_sprite_counterexample:
  "cell_of (render_frame bg_color_block_true fg_on_bg_char_true (18, 8, 84) 24 80
              demo_planet 12 40 demo_sat 3 3 23 10 False []) 23 10
     = Some (bg_color_block_true (240, 240, 80))
   \<and> bg_color_block_true (240, 240, 80)
       \<noteq> fg_on_bg_char_true (245, 245, 245) (18, 8, 84) (controls_text ! 10)
   \<and> 10 < length controls_text
   \<and> sprite_at demo_sat (23 - (py_round 23 - 3 div 2)) (10 - (py_round 10 - 3 div 2))
       = Some (240, 240, 80)"
proof -
  have sat: "sprite_at demo_sat (23 - (py_round 23 - 3 div 2)) (10 - (py_round 10 - 3 div 2))
       = Some (240, 240, 80)"
    by (simp add: sprite_at_def demo_sat_def)
  have "cell_of (render_frame bg_color_block_true fg_on_bg_char_true (18, 8, 84) 24 80
              demo_planet 12 40 demo_sat 3 3 23 10 False []) 23 10
     = Some (frame_cell (bg_color_block_true (18, 8, 84))
               (fg_on_bg_char_true (245, 245, 245) (18, 8, 84)) bg_color_block_true
               (fg_on_bg_char_true (245, 245, 245) (18, 8, 84)) controls_text 24 80
               demo_planet (12 - int (length demo_planet) div 2) (40 - int (length demo_planet) div 2)
               demo_sat (py_round 23 - int 3 div 2) (py_round 10 - int 3 div 2) False [] 23 10)"
    unfolding render_frame_def Let_def
    by (rule compose_frame_cell_of) (simp_all add: rectangular_demo)
  also have "\<dots> = Some (bg_color_block_true (240, 240, 80))"
    using sat by (simp add: frame_cell_def)
  finally have a: "cell_of (render_frame bg_color_block_true fg_on_bg_char_true (18, 8, 84) 24 80
              demo_planet 12 40 demo_sat 3 3 23 10 False []) 23 10
     = Some (bg_color_block_true (240, 240, 80))" .
  have b: "bg_color_block_true (240, 240, 80)
       \<noteq> fg_on_bg_char_true (245, 245, 245) (18, 8, 84) (controls_text ! 10)"
    by (simp add: bg_color_block_true_def fg_on_bg_char_true_def str_int_def)
  have c: "10 < length controls_text" by (simp add: controls_text_def)
  show ?thesis using a b c sat by blast
qed

text \<open>
  An instance with the overlay on: its first line covers the satellite cell at row 0,
  column 3, which shows through in the program without an overlay.
\<close>

theorem frame_layering_witness:
  "rectangular demo_planet \<and> rectangular demo_sat \<and> (0::nat) < 24 \<and> (3::nat) < 80
   \<and> cell_of (render_frame bg_color_block_true fg_on_bg_char_true (18, 8, 84) 24 80
              demo_planet 12 40 demo_sat 3 3 0 4 True [''MODE: 256'']) 0 3
       = Some (fg_on_bg_char_true (245, 245, 245) (18, 8, 84) CHR ''E'')
   \<and> cell_of (render_frame_vthree bg_color_block_true 24 80
              demo_planet 12 40 demo_sat 3 3 0 4) 0 3
       = Some (bg_color_block_true (240, 240, 80))"
proof -
  have h: "(0::nat) < 24" "(3::nat) < 80" by simp_all
  have "cell_of (render_frame bg_color_block_true fg_on_bg_char_true (18, 8, 84) 24 80
              demo_planet 12 40 demo_sat 3 3 0 4 True [''MODE: 256'']) 0 3
       = Some (fg_on_bg_char_true (245, 245, 245) (18, 8, 84) CHR ''E'')
   \<and> cell_of (render_frame_vthree bg_color_block_true 24 80
              demo_planet 12 40 demo_sat 3 3 0 4) 0 3
       = Some (bg_color_block_true (240, 240, 80))"
    using frame_layering[OF rectangular_demo h, of bg_color_block_true fg_on_bg_char_true
        "(18, 8, 84)" 12 40 3 3 0 4 True "[''MODE: 256'']" bg_color_block_true]
    by (simp add: frame_cell_def sprite_at_def demo_sat_def py_int_def)
  then show ?thesis using rectangular_demo h by blast
qed

section \<open>Properties of the 256-colour quantiser\<close>

lemma py_round_eq_round:
  assumes "x - of_int \<lfloor>x\<rfloor> \<noteq> 1/2"
  shows "py_round x = round x"
proof -
  have f: "of_int \<lfloor>x\<rfloor> \<le> x" "x < of_int \<lfloor>x\<rfloor> + 1" by linarith+
  show ?thesis
  proof (cases "x - of_int \<lfloor>x\<rfloor> < 1/2")
    case True
    then have "of_int \<lfloor>x\<rfloor> \<le> x + 1/2" "x + 1/2 < of_int \<lfloor>x\<rfloor> + 1" using f by linarith+
    then have "round x = \<lfloor>x\<rfloor>" unfolding round_def by (rule floor_unique)
    then show ?thesis using True by (simp add: py_round_def)
  next
    case False
    then have gt: "x - of_int \<lfloor>x\<rfloor> > 1/2" using assms by simp
    then have "of_int (\<lfloor>x\<rfloor> + 1) \<le> x + 1/2" "x + 1/2 < of_int (\<lfloor>x\<rfloor> + 1) + 1" using f by (simp_all, linarith)
    then have "round x = \<lfloor>x\<rfloor> + 1" unfolding round_def by (rule floor_unique)
    then show ?thesis using gt by (simp add: py_round_def)
  qed
qed

lemma no_tie_cube: "real_of_int v / 255 * 5 - of_int \<lfloor>real_of_int v / 255 * 5\<rfloor> \<noteq> 1/2"
proof
  let ?f = "\<lfloor>real_of_int v / 255 * 5\<rfloor>"
  assume "real_of_int v / 255 * 5 - of_int ?f = 1/2"
  then have "real_of_int (2 * v) = real_of_int (102 * ?f + 51)" by (simp add: field_simps)
  then have eq: "2 * v = 102 * ?f + 51" by (simp only: of_int_eq_iff)
  have "even (2 * v)" by simp
  moreover have "odd (102 * ?f + 51)" by simp
  ultimately show False using eq by simp
qed

lemma no_tie_gray:
  "real_of_int s / 3 / 255 * 23 - of_int \<lfloor>real_of_int s / 3 / 255 * 23\<rfloor> \<noteq> 1/2"
proof
  let ?f = "\<lfloor>real_of_int s / 3 / 255 * 23\<rfloor>"
  assume "real_of_int s / 3 / 255 * 23 - of_int ?f = 1/2"
  then have "real_of_int (46 * s) = real_of_int (1530 * ?f + 765)" by (simp add: field_simps)
  then have eq: "46 * s = 1530 * ?f + 765" by (simp only: of_int_eq_iff)
  have "even (46 * s)" by simp
  moreover have "odd (1530 * ?f + 765)" by simp
  ultimately show False using eq by simp
qed

lemma to_index_spec: "to_index v = spec_cube_index v"
  unfolding to_index_def spec_cube_index_def by (rule py_round_eq_round[OF no_tie_cube])

lemma from_index_spec: "from_index i = spec_cube_value i"
  by (simp add: from_index_def spec_cube_value_def)

lemma gray_level_spec:
  "py_round (((real_of_int (r + g + b) / 3) / 255) * 23) = spec_gray_level (r, g, b)"
  by (simp only: spec_gray_level_def prod.case py_round_eq_round[OF no_tie_gray])

lemma cube_index_range: "channel8 v \<Longrightarrow> 0 \<le> spec_cube_index v \<and> spec_cube_index v \<le> 5"
proof -
  assume "channel8 v"
  then have "0 \<le> real_of_int v / 255 * 5" "real_of_int v / 255 * 5 \<le> 5"
    by (simp_all add: channel8_def)
  then have "round (0::real) \<le> round (real_of_int v / 255 * 5)"
    "round (real_of_int v / 255 * 5) \<le> round (5::real)"
    by (intro round_mono; simp)+
  then show ?thesis by (simp add: spec_cube_index_def)
qed

lemma gray_level_range:
  assumes "channel8 r" "channel8 g" "channel8 b"
  shows "0 \<le> spec_gray_level (r, g, b) \<and> spec_gray_level (r, g, b) \<le> 23"
proof -
  have "0 \<le> real_of_int (r + g + b) / 3 / 255 * 23" "real_of_int (r + g + b) / 3 / 255 * 23 \<le> 23"
    using assms by (simp_all add: channel8_def)
  then have "round (0::real) \<le> round (real_of_int (r + g + b) / 3 / 255 * 23)"
    "round (real_of_int (r + g + b) / 3 / 255 * 23) \<le> round (23::real)"
    by (intro round_mono; simp)+
  then show ?thesis by (simp add: spec_gray_level_def)
qed

lemma channel8_clamp255: "channel8 (clamp255 v)"
  by (simp add: channel8_def clamp255_def)

lemma clamp255_id: "channel8 v \<Longrightarrow> clamp255 v = v"
  by (simp add: channel8_def clamp255_def)

lemma cube_code_digits:
  assumes "0 \<le> gi" "gi \<le> 5" "0 \<le> bi" "bi \<le> (5::int)"
  shows "(36 * ri + 6 * gi + bi) div 36 = ri"
    and "(36 * ri + 6 * gi + bi) div 6 mod 6 = gi"
    and "(36 * ri + 6 * gi + bi) mod 6 = bi"
proof -
  have a: "0 \<le> 6 * gi + bi" "6 * gi + bi < 36" using assms by linarith+
  have "(36 * ri + 6 * gi + bi) div 36 = (6 * gi + bi + ri * 36) div 36" by (simp add: algebra_simps)
  also have "\<dots> = ri" using a by (simp add: div_pos_pos_trivial)
  finally show "(36 * ri + 6 * gi + bi) div 36 = ri" .
  have "(36 * ri + 6 * gi + bi) div 6 = (bi + (6 * ri + gi) * 6) div 6" by (simp add: algebra_simps)
  also have "\<dots> = 6 * ri + gi" using assms by (simp add: div_pos_pos_trivial)
  finally have d6: "(36 * ri + 6 * gi + bi) div 6 = 6 * ri + gi" .
  show "(36 * ri + 6 * gi + bi) div 6 mod 6 = gi"
    unfolding d6 using assms by (simp add: mod_pos_pos_trivial)
  have "(36 * ri + 6 * gi + bi) mod 6 = (bi + (6 * ri + gi) * 6) mod 6" by (simp add: algebra_simps)
  also have "\<dots> = bi mod 6" by (simp only: mod_mult_self1)
  also have "\<dots> = bi" using assms by (simp add: mod_pos_pos_trivial)
  finally show "(36 * ri + 6 * gi + bi) mod 6 = bi" .
qed

lemma palette256_cube:
  assumes "0 \<le> ri" "ri \<le> 5" "0 \<le> gi" "gi \<le> 5" "0 \<le> bi" "bi \<le> (5::int)"
  shows "palette256 (16 + 36 * ri + 6 * gi + bi) =
           (spec_cube_value ri, spec_cube_value gi, spec_cube_value bi)"
proof -
  define i where "i = 36 * ri + 6 * gi + bi"
  have "16 + 36 * ri + 6 * gi + bi = 16 + i" by (simp add: i_def)
  moreover have "16 + i < 232" using assms unfolding i_def by linarith
  moreover have "i div 36 = ri" "i div 6 mod 6 = gi" "i mod 6 = bi"
    unfolding i_def using assms by (simp_all only: cube_code_digits)
  ultimately show ?thesis by (simp add: palette256_def Let_def)
qed

lemma palette256_gray: "0 \<le> l \<Longrightarrow> palette256 (232 + l) = (8 + 10 * l, 8 + 10 * l, 8 + 10 * l)"
  by (simp add: palette256_def Let_def)

text \<open>The function in terms of the specification's vocabulary, on clamped channels.\<close>

lemma rgb_to_ansi256_unfold:
  "rgb_to_ansi256 r0 g0 b0 =
     (let c = (clamp255 r0, clamp255 g0, clamp255 b0) in
      if sqdist c (spec_cube_projection c) \<le> sqdist c (spec_gray_projection c)
      then 16 + 36 * spec_cube_index (clamp255 r0) + 6 * spec_cube_index (clamp255 g0)
              + spec_cube_index (clamp255 b0)
      else 232 + spec_gray_level c)"
  unfolding rgb_to_ansi256_def Let_def to_index_spec from_index_spec gray_level_spec
      sqdist_def spec_cube_projection_def spec_gray_projection_def prod.case
  by (simp only: mult.commute)

text \<open>
  Claim C4. For a 24-bit colour the function returns the cube code of the cube projection
  when that projection is at least as near to the input as the grey projection (ties go to
  the cube), and the ramp code of the grey projection otherwise; the colour that the
  returned code stands for is therefore no farther from the input than either projection.
  The indices are the specification's \<open>round(channel/255*5)\<close> and
  \<open>round(mean/255*23)\<close>: Python's ties-to-even rounding agrees with them because no
  integer channel produces a tie.
\<close>

theorem quantize256_picks_nearer_projection:
  assumes "channel8 r" "channel8 g" "channel8 b"
  shows "let c = (r, g, b); cube = spec_cube_projection c; gray = spec_gray_projection c;
             code = rgb_to_ansi256 r g b
         in (sqdist c cube \<le> sqdist c gray \<longrightarrow>
               code = 16 + 36 * spec_cube_index r + 6 * spec_cube_index g + spec_cube_index b
               \<and> palette256 code = cube)
          \<and> (sqdist c gray < sqdist c cube \<longrightarrow>
               code = 232 + spec_gray_level c \<and> palette256 code = gray)
          \<and> sqdist c (palette256 code) \<le> sqdist c cube
          \<and> sqdist c (palette256 code) \<le> sqdist c gray"
proof -
  define c where "c = (r, g, b)"
  have cl: "(clamp255 r, clamp255 g, clamp255 b) = c"
    using assms by (simp add: clamp255_id c_def)
  have code: "rgb_to_ansi256 r g b =
      (if sqdist c (spec_cube_projection c) \<le> sqdist c (spec_gray_projection c)
       then 16 + 36 * spec_cube_index r + 6 * spec_cube_index g + spec_cube_index b
       else 232 + spec_gray_level c)"
    unfolding rgb_to_ansi256_unfold Let_def cl using assms by (simp add: clamp255_id)
  have pc: "palette256 (16 + 36 * spec_cube_index r + 6 * spec_cube_index g + spec_cube_index b)
              = spec_cube_projection c"
    using cube_index_range[OF assms(1)] cube_index_range[OF assms(2)] cube_index_range[OF assms(3)]
    by (simp add: palette256_cube spec_cube_projection_def c_def)
  have pg: "palette256 (232 + spec_gray_level c) = spec_gray_projection c"
    using gray_level_range[OF assms] by (simp add: palette256_gray spec_gray_projection_def c_def Let_def)
  show ?thesis
    unfolding Let_def c_def[symmetric] code using pc pg by auto
qed

text \<open>The planet colour goes to the cube, mid grey to the ramp.\<close>

theorem quantize256_witness:
  "channel8 200 \<and> channel8 120 \<and> channel8 80 \<and> channel8 128
   \<and> rgb_to_ansi256 200 120 80 = 174 \<and> palette256 174 = (215, 135, 135)
   \<and> sqdist (200, 120, 80) (215, 135, 135) = 3475 \<and> sqdist (200, 120, 80) (128, 128, 128) = 7552
   \<and> rgb_to_ansi256 128 128 128 = 244 \<and> palette256 244 = (128, 128, 128)"
proof -
  have ch: "channel8 200" "channel8 120" "channel8 80" "channel8 128" by (simp_all add: channel8_def)
  have idx: "spec_cube_index 200 = 4" "spec_cube_index 120 = 2" "spec_cube_index 80 = 2"
    "spec_cube_index 128 = 3"
    by (simp_all add: spec_cube_index_def round_def)
  have lvl: "spec_gray_level (200, 120, 80) = 12" "spec_gray_level (128, 128, 128) = 12"
    by (simp_all add: spec_gray_level_def round_def)
  have a': "rgb_to_ansi256 200 120 80 = 174 \<and> palette256 (rgb_to_ansi256 200 120 80) = (215, 135, 135)"
    using quantize256_picks_nearer_projection[OF ch(1) ch(2) ch(3)]
    by (auto simp: Let_def idx lvl spec_cube_projection_def spec_gray_projection_def
        spec_cube_value_def sqdist_def)
  then have a: "rgb_to_ansi256 200 120 80 = 174 \<and> palette256 174 = (215, 135, 135)" by metis
  have b': "rgb_to_ansi256 128 128 128 = 244 \<and> palette256 (rgb_to_ansi256 128 128 128) = (128, 128, 128)"
    using quantize256_picks_nearer_projection[OF ch(4) ch(4) ch(4)]
    by (auto simp: Let_def idx lvl spec_cube_projection_def spec_gray_projection_def
        spec_cube_value_def sqdist_def)
  then have b: "rgb_to_ansi256 128 128 128 = 244 \<and> palette256 244 = (128, 128, 128)" by metis
  show ?thesis using a b ch by (simp add: sqdist_def)
qed

text \<open>
  Claim C10. For all integer arguments, clamped by the function itself, the result is a
  palette index from 16 to 255: from 16 to 231 when the cube projection wins, from 232 to
  255 otherwise. The sixteen basic indices are never returned.
\<close>

theorem rgb_to_ansi256_range:
  "16 \<le> rgb_to_ansi256 r g b \<and> rgb_to_ansi256 r g b \<le> 255
   \<and> (let c = (clamp255 r, clamp255 g, clamp255 b) in
        if sqdist c (spec_cube_projection c) \<le> sqdist c (spec_gray_projection c)
        then rgb_to_ansi256 r g b \<le> 231 else 232 \<le> rgb_to_ansi256 r g b)"
proof -
  have r: "0 \<le> spec_cube_index (clamp255 r)" "spec_cube_index (clamp255 r) \<le> 5"
    and g: "0 \<le> spec_cube_index (clamp255 g)" "spec_cube_index (clamp255 g) \<le> 5"
    and b: "0 \<le> spec_cube_index (clamp255 b)" "spec_cube_index (clamp255 b) \<le> 5"
    using cube_index_range[OF channel8_clamp255] by simp_all
  have l: "0 \<le> spec_gray_level (clamp255 r, clamp255 g, clamp255 b)"
    "spec_gray_level (clamp255 r, clamp255 g, clamp255 b) \<le> 23"
    using gray_level_range[OF channel8_clamp255 channel8_clamp255 channel8_clamp255] by simp_all
  show ?thesis
    unfolding rgb_to_ansi256_unfold Let_def using r g b l by auto
qed

text \<open>Arguments outside the channel range are clamped first.\<close>

theorem rgb_to_ansi256_range_witness:
  "rgb_to_ansi256 (-7) 300 1000 = 51 \<and> 16 \<le> rgb_to_ansi256 (-7) 300 1000
   \<and> rgb_to_ansi256 (-7) 300 1000 \<le> 231"
proof -
  have idx: "spec_cube_index 0 = 0" "spec_cube_index 255 = 5"
    by (simp_all add: spec_cube_index_def round_def)
  have lvl: "spec_gray_level (0, 255, 255) = 15"
    by (simp add: spec_gray_level_def round_def)
  have "rgb_to_ansi256 (-7) 300 1000 = 51"
    by (simp add: rgb_to_ansi256_unfold Let_def clamp255_def idx lvl spec_cube_projection_def
        spec_gray_projection_def spec_cube_value_def sqdist_def)
  then show ?thesis using rgb_to_ansi256_range[of "-7" 300 1000] by simp
qed

section \<open>Properties of the procedural disc\<close>

lemma nth_concat_grid:
  "x < w \<Longrightarrow> y < h \<Longrightarrow> concat (map (\<lambda>y. map (f y) [0..<w]) [0..<h]) ! (y * w + x) = f y x"
proof (induction h)
  case 0
  then show ?case by simp
next
  case (Suc h)
  have len: "length (concat (map (\<lambda>y. map (f y) [0..<w]) [0..<h])) = h * w"
    by (simp add: length_concat comp_def sum_list_triv)
  show ?case
  proof (cases "y < h")
    case True
    then have "y * w + x < h * w"
      using Suc.prems(1) by (metis add.commute mult_Suc less_le_trans add_less_cancel_left mult_le_mono1 Suc_leI)
    then show ?thesis using Suc True len by (simp add: nth_append)
  next
    case False
    then have "y = h" using Suc.prems by simp
    then show ?thesis using Suc.prems len by (simp add: nth_append)
  qed
qed

lemma fold_add_sample_covered:
  "snd (snd (snd (fold add_sample vals acc)))
     = snd (snd (snd acc)) + length (filter (\<lambda>v. v \<noteq> None) vals)"
proof (induction vals arbitrary: acc)
  case Nil
  then show ?case by simp
next
  case (Cons v vals)
  show ?case
  proof (cases v)
    case None
    then show ?thesis using Cons[of acc] by (simp add: add_sample_def)
  next
    case (Some c)
    obtain r g b where c: "c = (r, g, b)" by (cases c) auto
    obtain ar ag ab n where acc: "acc = (ar, ag, ab, n)" by (cases acc) auto
    show ?thesis
      using Cons[of "(ar + of_int r, ag + of_int g, ab + of_int b, n + 1)"]
      by (simp add: Some c acc add_sample_def)
  qed
qed

lemma circle_cell_None_iff:
  "circle_cell bg_rgb hr_color high ss cy cx = None
     \<longleftrightarrow> (\<forall>v \<in> set (block_values hr_color high ss cy cx). v = None)"
proof -
  obtain ar ag ab n where f: "fold add_sample (block_values hr_color high ss cy cx) (0, 0, 0, 0) = (ar, ag, ab, n)"
    by (metis prod_cases4)
  have n: "n = length (filter (\<lambda>v. v \<noteq> None) (block_values hr_color high ss cy cx))"
    using fold_add_sample_covered[of "block_values hr_color high ss cy cx" "(0, 0, 0, 0)"]
    by (simp add: f)
  have "circle_cell bg_rgb hr_color high ss cy cx = None \<longleftrightarrow> n = 0"
    by (cases bg_rgb) (simp add: circle_cell_def f Let_def)
  also have "\<dots> \<longleftrightarrow> (\<forall>v \<in> set (block_values hr_color high ss cy cx). v = None)"
    unfolding n length_0_conv filter_empty_conv by blast
  finally show ?thesis .
qed

lemma all_block_values:
  "(\<forall>v \<in> set (block_values hr_color high ss cy cx). P v)
     \<longleftrightarrow> (\<forall>oy<ss. \<forall>ox<ss. P (hr_color ! ((cy * ss + oy) * high + (cx * ss + ox))))"
  by (auto simp: block_values_def)

lemma hr_color_at_None_iff:
  "hr_color_at r color_rgb edge_rgb ss edge_width y x = None
     \<longleftrightarrow> sample_distance r ss y x > (real r + 1 / 4) * real ss"
  by (auto simp: hr_color_at_def sample_distance_def Let_def algebra_simps)

lemma generate_smooth_circle_dims:
  "length (generate_smooth_circle bg_rgb r color_rgb edge_rgb supersample edge_width) = r * 2 + 1"
  "cy < r * 2 + 1 \<Longrightarrow>
     length (generate_smooth_circle bg_rgb r color_rgb edge_rgb supersample edge_width ! cy) = r * 2 + 1"
  by (simp_all add: generate_smooth_circle_def Let_def del: upt_Suc)

lemma generate_smooth_circle_cell_None_iff:
  assumes "cy < r * 2 + 1" "cx < r * 2 + 1"
  shows "generate_smooth_circle bg_rgb r color_rgb edge_rgb supersample edge_width ! cy ! cx = None
     \<longleftrightarrow> (\<forall>oy < nat (max 1 supersample). \<forall>ox < nat (max 1 supersample).
            sample_distance r (nat (max 1 supersample)) (cy * nat (max 1 supersample) + oy)
                                                          (cx * nat (max 1 supersample) + ox)
              > (real r + 1 / 4) * real (nat (max 1 supersample)))"
proof -
  define ss where "ss = nat (max 1 supersample)"
  define high where "high = (r * 2 + 1) * ss"
  define hr_color where "hr_color = concat (map (\<lambda>y. map (\<lambda>x. hr_color_at r color_rgb edge_rgb ss
                                                 edge_width y x) [0..<high]) [0..<high])"
  have cell: "generate_smooth_circle bg_rgb r color_rgb edge_rgb supersample edge_width ! cy ! cx
      = circle_cell bg_rgb hr_color high ss cy cx"
    using assms
    by (simp add: generate_smooth_circle_def Let_def ss_def high_def hr_color_def del: upt_Suc)
  have rd: "hr_color ! ((cy * ss + oy) * high + (cx * ss + ox))
      = hr_color_at r color_rgb edge_rgb ss edge_width (cy * ss + oy) (cx * ss + ox)"
    if "oy < ss" "ox < ss" for oy ox
  proof -
    have "cy * ss + oy < (cy + 1) * ss" "cx * ss + ox < (cx + 1) * ss" using that by simp_all
    moreover have "(cy + 1) * ss \<le> high" "(cx + 1) * ss \<le> high"
      using assms unfolding high_def by (simp_all add: mult_le_mono1 del: mult_Suc)
    ultimately have "cx * ss + ox < high" "cy * ss + oy < high" by linarith+
    then show ?thesis unfolding hr_color_def by (rule nth_concat_grid)
  qed
  have "circle_cell bg_rgb hr_color high ss cy cx = None
      \<longleftrightarrow> (\<forall>oy<ss. \<forall>ox<ss. hr_color ! ((cy * ss + oy) * high + (cx * ss + ox)) = None)"
    unfolding circle_cell_None_iff all_block_values ..
  also have "\<dots> \<longleftrightarrow> (\<forall>oy<ss. \<forall>ox<ss.
      hr_color_at r color_rgb edge_rgb ss edge_width (cy * ss + oy) (cx * ss + ox) = None)"
    using rd by simp
  finally show ?thesis unfolding cell hr_color_at_None_iff ss_def .
qed

lemma sample_distance_offsets:
  assumes "oy < ss" "ox < ss"
  shows "sample_distance r ss (cy * ss + oy) (cx * ss + ox)
           = sqrt ((real ss * (real cx - real r) + (real ox - (real ss - 1) / 2))\<^sup>2
                 + (real ss * (real cy - real r) + (real oy - (real ss - 1) / 2))\<^sup>2)"
proof -
  have "real (cx * ss + ox) - (real ((r * 2 + 1) * ss) - 1) / 2
          = real ss * (real cx - real r) + (real ox - (real ss - 1) / 2)"
    "real (cy * ss + oy) - (real ((r * 2 + 1) * ss) - 1) / 2
          = real ss * (real cy - real r) + (real oy - (real ss - 1) / 2)"
    by (simp_all add: field_simps)
  then show ?thesis by (simp only: sample_distance_def hypot_def)
qed

lemma sample_far:
  assumes o: "oy < ss" "ox < ss"
    and far: "(int cy - int r)\<^sup>2 + (int cx - int r)\<^sup>2 \<ge> (int r + 1)\<^sup>2"
  shows "sample_distance r ss (cy * ss + oy) (cx * ss + ox) > (real r + 1 / 4) * real ss"
proof -
  define a where "a = real ss * (real cx - real r)"
  define b where "b = real ss * (real cy - real r)"
  define u where "u = real ox - (real ss - 1) / 2"
  define v where "v = real oy - (real ss - 1) / 2"
  have ss: "0 < real ss" using o by simp
  have D: "(real r + 1)\<^sup>2 \<le> (real cy - real r)\<^sup>2 + (real cx - real r)\<^sup>2"
  proof -
    have "real_of_int ((int r + 1)\<^sup>2) \<le> real_of_int ((int cy - int r)\<^sup>2 + (int cx - int r)\<^sup>2)"
      using far by (simp only: of_int_le_iff)
    then show ?thesis by simp
  qed
  have "(real ss * (real r + 1))\<^sup>2 = (real ss)\<^sup>2 * (real r + 1)\<^sup>2" by (simp add: power_mult_distrib)
  also have "\<dots> \<le> (real ss)\<^sup>2 * ((real cy - real r)\<^sup>2 + (real cx - real r)\<^sup>2)"
    using D by (intro mult_left_mono) simp_all
  also have "\<dots> = a\<^sup>2 + b\<^sup>2" by (simp add: a_def b_def power_mult_distrib distrib_left)
  finally have big: "real ss * (real r + 1) \<le> sqrt (a\<^sup>2 + b\<^sup>2)" by (rule real_le_rsqrt)
  have ub: "\<bar>u\<bar> \<le> real ss / 2" "\<bar>v\<bar> \<le> real ss / 2"
    using o by (auto simp: u_def v_def abs_le_iff field_simps)
  have "u\<^sup>2 \<le> (real ss / 2)\<^sup>2" "v\<^sup>2 \<le> (real ss / 2)\<^sup>2"
    using ub by (simp_all only: abs_le_square_iff[symmetric] abs_of_pos[OF half_gt_zero[OF ss]])
  then have "u\<^sup>2 + v\<^sup>2 \<le> (real ss)\<^sup>2 / 2" by (simp add: power_divide)
  also have "\<dots> \<le> (5 / 7 * real ss)\<^sup>2" by (simp add: power_mult_distrib power_divide)
  finally have small: "sqrt (u\<^sup>2 + v\<^sup>2) \<le> 5 / 7 * real ss"
    using ss by (intro real_le_lsqrt) simp_all
  have "sqrt (((a + u) + (- u))\<^sup>2 + ((b + v) + (- v))\<^sup>2)
          \<le> sqrt ((a + u)\<^sup>2 + (b + v)\<^sup>2) + sqrt ((- u)\<^sup>2 + (- v)\<^sup>2)"
    by (rule real_sqrt_sum_squares_triangle_ineq)
  then have "sqrt (a\<^sup>2 + b\<^sup>2) \<le> sqrt ((a + u)\<^sup>2 + (b + v)\<^sup>2) + sqrt (u\<^sup>2 + v\<^sup>2)" by simp
  then have "real ss * (real r + 1) - 5 / 7 * real ss \<le> sqrt ((a + u)\<^sup>2 + (b + v)\<^sup>2)"
    using big small by linarith
  moreover have "(real r + 1 / 4) * real ss < real ss * (real r + 1) - 5 / 7 * real ss"
    using ss by (simp add: algebra_simps)
  ultimately show ?thesis
    unfolding sample_distance_offsets[OF o] a_def b_def u_def v_def by linarith
qed

lemma sample_distance_unit: "sample_distance r (Suc 0) cy cx = sqrt ((real cx - real r)\<^sup>2 + (real cy - real r)\<^sup>2)"
  by (simp add: sample_distance_def hypot_def)

text \<open>
  Claim C2, as the code has it. The sprite is a \<open>(2r+1)\<close> by \<open>(2r+1)\<close> grid. A cell is
  transparent exactly when none of the \<open>S\<close> by \<open>S\<close> samples of its block lies within
  \<open>(r + 1/4) \<cdot> S\<close> of the high-resolution centre. Hence every cell whose index is at
  distance at least \<open>r + 1\<close> from \<open>(r, r)\<close> is transparent; with \<open>S = 1\<close> the transparent
  cells are exactly those farther than \<open>r + 1/4\<close>; and for \<open>r = 3\<close> the four corners of the
  7 by 7 grid are transparent for every \<open>S\<close>.
\<close>

theorem disc_grid_and_transparency:
  fixes bg_rgb color_rgb :: color and edge_rgb :: "color option" and r :: nat
    and supersample :: int and edge_width :: real
  defines "sprite \<equiv> generate_smooth_circle bg_rgb r color_rgb edge_rgb supersample edge_width"
    and "ss \<equiv> nat (max 1 supersample)"
  shows "length sprite = 2 * r + 1
       \<and> (\<forall>cy < 2 * r + 1. length (sprite ! cy) = 2 * r + 1
            \<and> (\<forall>cx < 2 * r + 1.
                  (sprite ! cy ! cx = None
                     \<longleftrightarrow> (\<forall>oy < ss. \<forall>ox < ss.
                            sample_distance r ss (cy * ss + oy) (cx * ss + ox)
                              > (real r + 1 / 4) * real ss))
                \<and> ((int cy - int r)\<^sup>2 + (int cx - int r)\<^sup>2 \<ge> (int r + 1)\<^sup>2
                     \<longrightarrow> sprite ! cy ! cx = None)
                \<and> (ss = 1 \<longrightarrow>
                     (sprite ! cy ! cx = None
                        \<longleftrightarrow> sqrt ((real cx - real r)\<^sup>2 + (real cy - real r)\<^sup>2) > real r + 1 / 4))))
       \<and> (r = 3 \<longrightarrow> sprite ! 0 ! 0 = None \<and> sprite ! 0 ! 6 = None
                     \<and> sprite ! 6 ! 0 = None \<and> sprite ! 6 ! 6 = None)"
proof -
  have len: "length sprite = 2 * r + 1"
    unfolding sprite_def by (simp add: generate_smooth_circle_dims(1))
  have row: "length (sprite ! cy) = 2 * r + 1" if "cy < 2 * r + 1" for cy
    unfolding sprite_def using that generate_smooth_circle_dims(2)[of cy r] by simp
  have iff: "sprite ! cy ! cx = None
                     \<longleftrightarrow> (\<forall>oy < ss. \<forall>ox < ss.
                            sample_distance r ss (cy * ss + oy) (cx * ss + ox)
                              > (real r + 1 / 4) * real ss)"
    if "cy < 2 * r + 1" "cx < 2 * r + 1" for cy cx
    unfolding sprite_def ss_def
    using that by (intro generate_smooth_circle_cell_None_iff) simp_all
  have far: "sprite ! cy ! cx = None"
    if "cy < 2 * r + 1" "cx < 2 * r + 1"
      "(int cy - int r)\<^sup>2 + (int cx - int r)\<^sup>2 \<ge> (int r + 1)\<^sup>2" for cy cx
    unfolding iff[OF that(1,2)] using sample_far[OF _ _ that(3)] by blast
  have unit: "sprite ! cy ! cx = None
                \<longleftrightarrow> sqrt ((real cx - real r)\<^sup>2 + (real cy - real r)\<^sup>2) > real r + 1 / 4"
    if "cy < 2 * r + 1" "cx < 2 * r + 1" "ss = 1" for cy cx
    unfolding iff[OF that(1,2)] that(3) by (simp add: sample_distance_unit)
  have corners: "sprite ! 0 ! 0 = None \<and> sprite ! 0 ! 6 = None
                     \<and> sprite ! 6 ! 0 = None \<and> sprite ! 6 ! 6 = None" if "r = 3"
    using far[of 0 0] far[of 0 6] far[of 6 0] far[of 6 6] that by simp
  show ?thesis using len row iff far unit corners by blast
qed

text \<open>
  Claim C2, as stated, fails for \<open>S > 1\<close>. With radius 3 and the default supersample
  factor 4 the cell in row 0, column 1 is at index distance \<open>sqrt 13 > 3.25\<close> from the
  centre cell, yet its block contains the sample \<open>(x, y) = (7, 3)\<close> at distance
  \<open>sqrt 152.5 \<le> 13\<close> from the high-resolution centre, so the cell is not transparent.
\<close>

theorem disc_cell_counterexample:
  "generate_smooth_circle (18, 8, 84) 3 PALETTE_planet (Some PALETTE_planet_edge) 4 (28 / 100) ! 0 ! 1
     \<noteq> None
   \<and> sqrt ((0 - 3)\<^sup>2 + (1 - 3)\<^sup>2) > (3 :: real) + 1 / 4"
proof -
  have "sample_distance 3 4 (0 * 4 + 3) (1 * 4 + 3) = sqrt (305 / 2)"
    by (simp add: sample_distance_def hypot_def power2_eq_square)
  also have "\<dots> \<le> 13" by (rule real_le_lsqrt) simp_all
  finally have near: "\<not> sample_distance 3 4 (0 * 4 + 3) (1 * 4 + 3) > (real 3 + 1 / 4) * real 4"
    by simp
  have "nat (max 1 4) = 4" by simp
  then have "generate_smooth_circle (18, 8, 84) 3 PALETTE_planet (Some PALETTE_planet_edge) 4 (28 / 100) ! 0 ! 1 = None
     \<longleftrightarrow> (\<forall>oy < 4. \<forall>ox < 4. sample_distance 3 4 (0 * 4 + oy) (1 * 4 + ox) > (real 3 + 1 / 4) * real 4)"
    using generate_smooth_circle_cell_None_iff[of 0 3 1 "(18, 8, 84)" PALETTE_planet
        "Some PALETTE_planet_edge" 4 "28 / 100"]
    by simp
  moreover have "\<not> (\<forall>oy < 4. \<forall>ox < 4. sample_distance 3 4 (0 * 4 + oy) (1 * 4 + ox) > (real 3 + 1 / 4) * real 4)"
  proof
    assume "\<forall>oy < 4. \<forall>ox < 4. sample_distance 3 4 (0 * 4 + oy) (1 * 4 + ox) > (real 3 + 1 / 4) * real 4"
    then have "\<forall>ox < 4. sample_distance 3 4 (0 * 4 + 3) (1 * 4 + ox) > (real 3 + 1 / 4) * real 4"
      by (rule allE[of _ 3]) simp
    then have "sample_distance 3 4 (0 * 4 + 3) (1 * 4 + 3) > (real 3 + 1 / 4) * real 4"
      by (rule allE[of _ 3]) simp
    then show False using near by simp
  qed
  ultimately have a: "generate_smooth_circle (18, 8, 84) 3 PALETTE_planet (Some PALETTE_planet_edge) 4 (28 / 100) ! 0 ! 1
     \<noteq> None" by blast
  have "(13 / 4 :: real) < sqrt 13" by (rule real_less_rsqrt) (simp add: power2_eq_square)
  then have b: "sqrt ((0 - 3)\<^sup>2 + (1 - 3)\<^sup>2) > (3 :: real) + 1 / 4" by simp
  show ?thesis using a b by blast
qed

text \<open>The default planet disc: seven rows, transparent corners.\<close>

theorem disc_grid_witness:
  "length (generate_smooth_circle (18, 8, 84) 3 PALETTE_planet (Some PALETTE_planet_edge) 4 (28 / 100)) = 7
   \<and> generate_smooth_circle (18, 8, 84) 3 PALETTE_planet (Some PALETTE_planet_edge) 4 (28 / 100) ! 0 ! 0 = None
   \<and> generate_smooth_circle (18, 8, 84) 3 PALETTE_planet (Some PALETTE_planet_edge) 4 (28 / 100) ! 6 ! 6 = None
   \<and> generate_smooth_circle (18, 8, 84) 3 PALETTE_planet (Some PALETTE_planet_edge) 4 (28 / 100) ! 0 ! 6 = None
   \<and> generate_smooth_circle (18, 8, 84) 3 PALETTE_planet (Some PALETTE_planet_edge) 4 (28 / 100) ! 6 ! 0 = None"
  using disc_grid_and_transparency[of "(18, 8, 84)" 3 PALETTE_planet "Some PALETTE_planet_edge" 4 "28 / 100"]
  by simp

lemma t_edge_at_closed:
  assumes T: "1 \<le> T" "T \<le> rad" and rad: "rad \<le> 10 ^ 6"
  shows "t_edge_at rad T d = max 0 (min 1 ((d - (rad - T)) / (T + 1 / 10 ^ 9)))"
proof -
  define e :: real where "e = 1 / 10 ^ 9"
  define R where "R = rad + e"
  have e: "0 < e" by (simp add: e_def)
  have R: "0 < R" using T e by (simp add: R_def)
  have Te: "0 < T + e" using T e by simp
  define es where "es = (rad - T) / R"
  have es0: "0 \<le> es" using T R by (simp add: es_def)
  have one_es: "1 - es = (T + e) / R" using R by (simp add: es_def R_def field_simps)
  have "R < 10 ^ 6 * (T + e)"
  proof -
    have "R \<le> 10 ^ 6 + e" using rad by (simp add: R_def)
    also have "\<dots> < 10 ^ 6 * (1 + e)" using e by simp
    also have "\<dots> \<le> 10 ^ 6 * (T + e)" using T by simp
    finally show ?thesis .
  qed
  then have gap: "1 - es > 1 / 10 ^ 6" unfolding one_es using R by (simp add: field_simps)
  have "d / R - es = (d - (rad - T)) / R" by (simp add: es_def diff_divide_distrib)
  then have ratio: "(d / R - es) / (1 - es) = (d - (rad - T)) / (T + e)"
    unfolding one_es using R by simp
  have unfold: "t_edge_at rad T d =
      (if d / R \<ge> es then max 0 (min 1 ((d / R - es) / (1 - es))) else 0)"
    using es0 gap by (simp add: t_edge_at_def Let_def R_def es_def e_def max_def)
  show ?thesis
  proof (cases "d / R \<ge> es")
    case True
    then show ?thesis unfolding unfold ratio by (simp add: e_def)
  next
    case False
    then have "d / R < (rad - T) / R" by (simp add: es_def)
    then have "d < rad - T" using R by (simp add: divide_less_cancel)
    then have "(d - (rad - T)) / (T + e) < 0" using Te by (simp add: field_simps)
    then have "max 0 (min 1 ((d - (rad - T)) / (T + e))) = 0" by simp
    then show ?thesis using False unfolding unfold by (simp add: e_def)
  qed
qed

lemma hr_color_at_closed:
  assumes "1 \<le> r" "1 \<le> ss" "0 \<le> w" "w \<le> 1" "r * ss \<le> 10 ^ 6"
    and included: "hr_color_at r color_rgb edge_rgb ss w y x \<noteq> None"
  shows "hr_color_at r color_rgb edge_rgb ss w y x =
           Some (case edge_rgb of
                   Some e \<Rightarrow>
                     blend color_rgb e
                       (max 0 (min 1 ((sample_distance r ss y x
                                         - (real (r * ss) - max 1 (w * real (r * ss))))
                                      / (max 1 (w * real (r * ss)) + 1 / 10 ^ 9))))
                 | None \<Rightarrow> color_rgb)"
proof -
  define rad where "rad = real (r * ss)"
  define T where "T = max 1 (w * rad)"
  have rad1: "1 \<le> rad"
    unfolding rad_def using assms(1,2) by (metis One_nat_def mult_le_mono nat_mult_1 of_nat_1 of_nat_le_iff)
  have "w * rad \<le> rad" using assms(3,4) rad1 by (simp add: mult_left_le_one_le)
  then have T: "1 \<le> T" "T \<le> rad" using rad1 by (simp_all add: T_def)
  have "rad \<le> 10 ^ 6"
  proof -
    have "real (r * ss) \<le> real (10 ^ 6)" using assms(5) by (simp only: of_nat_le_iff)
    then show ?thesis by (simp add: rad_def)
  qed
  note cl = t_edge_at_closed[OF T this]
  have inc: "\<not> sample_distance r ss y x > (real r + 1 / 4) * real ss"
    using included by (simp add: hr_color_at_None_iff)
  then have "hypot (real x - (real ((r * 2 + 1) * ss) - 1) / 2) (real y - (real ((r * 2 + 1) * ss) - 1) / 2)
                \<le> real (r * ss) + 1 / 4 * real ss"
    by (simp add: sample_distance_def algebra_simps)
  then show ?thesis
    unfolding hr_color_at_def Let_def
    by (simp only: if_True cl[unfolded T_def rad_def] sample_distance_def)
qed

text \<open>
  Claim C5, as the code has it. For \<open>r \<ge> 1\<close>, \<open>S \<ge> 1\<close>, \<open>0 \<le> w \<le> 1\<close> and \<open>r \<cdot> S \<le> 10\<^sup>6\<close>,
  an included point at distance \<open>d\<close> from the centre has the colour \<open>blend base edge t\<close>
  when an edge colour is given, and the base colour otherwise, where the band has the
  thickness \<open>T = max 1 (w \<cdot> r \<cdot> S)\<close>: \<open>t\<close> is 0 up to \<open>d = r \<cdot> S - T\<close>, grows linearly, and is
  1 from \<open>d = r \<cdot> S + 10\<^sup>-\<^sup>9\<close> on.
\<close>

theorem edge_band_colour:
  assumes "1 \<le> r" "1 \<le> ss" "0 \<le> w" "w \<le> 1" "r * ss \<le> 10 ^ 6"
    and "hr_color_at r color_rgb edge_rgb ss w y x \<noteq> None"
  shows "hr_color_at r color_rgb edge_rgb ss w y x =
           Some (case edge_rgb of
                   Some e \<Rightarrow>
                     blend color_rgb e
                       (max 0 (min 1 ((sample_distance r ss y x
                                         - (real (r * ss) - max 1 (w * real (r * ss))))
                                      / (max 1 (w * real (r * ss)) + 1 / 10 ^ 9))))
                 | None \<Rightarrow> color_rgb)"
  using assms by (rule hr_color_at_closed)

lemma sqrt2_bounds: "14142 / 10000 < sqrt 2" "sqrt 2 < 14143 / 10000"
proof -
  show "14142 / 10000 < sqrt 2" by (rule real_less_rsqrt) (simp add: power2_eq_square)
  show "sqrt 2 < 14143 / 10000" by (rule real_less_lsqrt) (simp_all add: power2_eq_square)
qed

lemma py_int_between: "of_int n \<le> x \<Longrightarrow> x < of_int n + 1 \<Longrightarrow> 0 \<le> n \<Longrightarrow> py_int x = n"
proof -
  assume a: "of_int n \<le> x" "x < of_int n + 1" "0 \<le> n"
  then have "0 \<le> x" by (metis of_int_0_le_iff order_trans)
  moreover have "\<lfloor>x\<rfloor> = n" using a by (intro floor_unique) simp_all
  ultimately show ?thesis by (simp add: py_int_def)
qed

lemma corner_distance: "sample_distance 2 1 3 3 = sqrt 2"
  by (simp add: sample_distance_def hypot_def)

lemma corner_weight:
  "max 0 (min 1 ((sample_distance 2 1 3 3 - (real (2 * 1) - max 1 (28 / 100 * real (2 * 1))))
                   / (max 1 (28 / 100 * real (2 * 1)) + 1 / 10 ^ 9)))
     = (sqrt 2 - 1) / (1 + 1 / 10 ^ 9)"
proof -
  have m: "max 1 (28 / 100 * real (2 * 1)) = 1" by simp
  have "0 \<le> (sqrt 2 - 1) / (1 + 1 / 10 ^ 9)" using sqrt2_bounds(1) by simp
  moreover have "(sqrt 2 - 1) / (1 + 1 / 10 ^ 9) \<le> 1"
  proof -
    have "sqrt 2 - 1 \<le> 1" using sqrt2_bounds(2) by simp
    then have "(sqrt 2 - 1) / (1 + 1 / 10 ^ 9) \<le> 1 / (1 + 1 / 10 ^ 9)"
      by (intro divide_right_mono) simp_all
    also have "\<dots> \<le> 1" by simp
    finally show ?thesis .
  qed
  ultimately have "max 0 (min 1 ((sqrt 2 - 1) / (1 + 1 / 10 ^ 9))) = (sqrt 2 - 1) / (1 + 1 / 10 ^ 9)"
    by simp
  moreover have "sample_distance 2 1 3 3 - (real (2 * 1) - max 1 (28 / 100 * real (2 * 1))) = sqrt 2 - 1"
    unfolding m corner_distance by simp
  ultimately show ?thesis unfolding m by simp
qed

lemma corner_weight_bounds:
  "4125 / 10000 < (sqrt 2 - 1) / (1 + 1 / 10 ^ 9)" "(sqrt 2 - 1) / (1 + 1 / 10 ^ 9) < 4150 / 10000"
proof -
  have "4125 / 10000 * (1 + 1 / 10 ^ 9) < (4142 / 10000 :: real)" by simp
  also have "\<dots> < sqrt 2 - 1" using sqrt2_bounds(1) by simp
  finally show "4125 / 10000 < (sqrt 2 - 1) / (1 + 1 / 10 ^ 9)"
    by (simp add: pos_less_divide_eq)
  have "sqrt 2 - 1 < 4143 / 10000" using sqrt2_bounds(2) by simp
  also have "\<dots> < 4150 / 10000 * (1 + 1 / 10 ^ 9 :: real)" by simp
  finally show "(sqrt 2 - 1) / (1 + 1 / 10 ^ 9) < 4150 / 10000"
    by (simp add: pos_divide_less_eq)
qed

lemma corner_blend:
  assumes "4125 / 10000 < t" "t < 4150 / 10000"
  shows "blend PALETTE_planet PALETTE_planet_edge t = (166, 95, 59)"
proof -
  have r: "py_int (200 - 80 * t) = 166"
    using assms by (intro py_int_between) simp_all
  have g: "py_int (120 - 60 * t) = 95"
    using assms by (intro py_int_between) simp_all
  have b: "py_int (80 - 50 * t) = 59"
    using assms by (intro py_int_between) simp_all
  show ?thesis
    by (simp add: blend_def PALETTE_planet_def PALETTE_planet_edge_def clamp_def r g b)
qed

text \<open>
  Claim C5, as stated, fails where \<open>w \<cdot> r \<cdot> S < 1\<close>. With radius 2, \<open>S = 1\<close> and \<open>w = 0.28\<close>
  the claimed band starts at distance \<open>2 - 0.56 = 1.44\<close>; the point \<open>(3, 3)\<close> at distance
  \<open>sqrt 2\<close> lies inside that radius and should keep \<open>blend base edge 0\<close>, the base colour.
  The code's band is one sample thick, starts at distance 1, and gives the point the
  weight \<open>0.414\<close> and the colour \<open>(166, 95, 59)\<close>.
\<close>

theorem edge_band_counterexample:
  "hr_color_at 2 PALETTE_planet (Some PALETTE_planet_edge) 1 (28 / 100) 3 3 = Some (166, 95, 59)
   \<and> sample_distance 2 1 3 3 < real (2 * 1) - 28 / 100 * real (2 * 1)
   \<and> blend PALETTE_planet PALETTE_planet_edge 0 = (200, 120, 80)"
proof -
  have inc: "hr_color_at 2 PALETTE_planet (Some PALETTE_planet_edge) 1 (28 / 100) 3 3 \<noteq> None"
    unfolding hr_color_at_None_iff corner_distance using sqrt2_bounds by simp
  have "hr_color_at 2 PALETTE_planet (Some PALETTE_planet_edge) 1 (28 / 100) 3 3
      = Some (blend PALETTE_planet PALETTE_planet_edge ((sqrt 2 - 1) / (1 + 1 / 10 ^ 9)))"
    using hr_color_at_closed[of 2 1 "28 / 100" PALETTE_planet "Some PALETTE_planet_edge" 3 3, OF _ _ _ _ _ inc]
    unfolding corner_weight option.case by simp
  then have a: "hr_color_at 2 PALETTE_planet (Some PALETTE_planet_edge) 1 (28 / 100) 3 3 = Some (166, 95, 59)"
    by (simp only: corner_blend[OF corner_weight_bounds])
  have bnd: "sample_distance 2 1 3 3 < real (2 * 1) - 28 / 100 * real (2 * 1)"
    unfolding corner_distance using sqrt2_bounds by simp
  have b0: "blend PALETTE_planet PALETTE_planet_edge 0 = (200, 120, 80)"
    by (simp add: blend_def PALETTE_planet_def PALETTE_planet_edge_def clamp_def py_int_def)
  show ?thesis using a bnd b0 by blast
qed

lemma centre_weight:
  "max 0 (min 1 ((sample_distance 1 1 1 1 - (real (1 * 1) - max 1 (35 / 100 * real (1 * 1))))
                   / (max 1 (35 / 100 * real (1 * 1)) + 1 / 10 ^ 9))) = 0"
proof -
  have d: "sample_distance 1 1 1 1 = 0" by (simp add: sample_distance_def hypot_def)
  have m: "max 1 (35 / 100 * real (1 * 1)) = 1" by simp
  show ?thesis unfolding d m by simp
qed

lemma blend_sat_0: "blend PALETTE_sat PALETTE_sat_edge 0 = (240, 240, 80)"
  by (simp add: blend_def PALETTE_sat_def PALETTE_sat_edge_def clamp_def py_int_def)

text \<open>The centre point of the smallest satellite disc keeps the base colour.\<close>

theorem edge_band_witness:
  "(1::nat) \<le> 1 \<and> (0::real) \<le> 35 / 100 \<and> (35 / 100 :: real) \<le> 1 \<and> (1::nat) * 1 \<le> 10 ^ 6
   \<and> hr_color_at 1 PALETTE_sat (Some PALETTE_sat_edge) 1 (35 / 100) 1 1 \<noteq> None
   \<and> hr_color_at 1 PALETTE_sat (Some PALETTE_sat_edge) 1 (35 / 100) 1 1 = Some (240, 240, 80)"
proof -
  have h: "(1::nat) \<le> 1" "(0::real) \<le> 35 / 100" "(35 / 100 :: real) \<le> 1" "(1::nat) * 1 \<le> 10 ^ 6"
    by simp_all
  have d: "sample_distance 1 1 1 1 = 0" by (simp add: sample_distance_def hypot_def)
  have inc: "hr_color_at 1 PALETTE_sat (Some PALETTE_sat_edge) 1 (35 / 100) 1 1 \<noteq> None"
    unfolding hr_color_at_None_iff d by simp
  have "hr_color_at 1 PALETTE_sat (Some PALETTE_sat_edge) 1 (35 / 100) 1 1 = Some (240, 240, 80)"
    using edge_band_colour[OF h(1) h(1) h(2) h(3) h(4) inc]
    unfolding centre_weight option.case blend_sat_0 .
  then show ?thesis using inc h by blast
qed

section \<open>Properties of the image sprite loader\<close>

lemma fold_add_pixel:
  "fold add_pixel ps (ar, ag, ab, aa, n) =
     (ar + (\<Sum>p\<leftarrow>ps. case p of (r, g, b, a) \<Rightarrow> of_int r * (of_int a / 255)),
      ag + (\<Sum>p\<leftarrow>ps. case p of (r, g, b, a) \<Rightarrow> of_int g * (of_int a / 255)),
      ab + (\<Sum>p\<leftarrow>ps. case p of (r, g, b, a) \<Rightarrow> of_int b * (of_int a / 255)),
      aa + (\<Sum>p\<leftarrow>ps. case p of (r, g, b, a) \<Rightarrow> of_int a),
      n + length ps)"
  by (induction ps arbitrary: ar ag ab aa n) (auto simp: add_pixel_def)

lemma length_block_pixels: "length (block_pixels hr_px ss cy cx) = ss * ss"
  by (simp add: block_pixels_def length_concat comp_def sum_list_triv)

lemma png_cell_transparent:
  assumes "block_mean_alpha hr_px ss cy cx < 1 / 100"
  shows "png_cell hr_px bg_rgb ss cy cx = None"
proof -
  obtain ar ag ab aa n where f: "fold add_pixel (block_pixels hr_px ss cy cx) (0, 0, 0, 0, 0) = (ar, ag, ab, aa, n)"
    by (metis prod_cases5)
  have "aa = (\<Sum>p\<leftarrow>block_pixels hr_px ss cy cx. case p of (r, g, b, a) \<Rightarrow> of_int a)" "n = ss * ss"
    using f by (simp_all add: fold_add_pixel length_block_pixels)
  then have "aa / (real n * 255) < 1 / 100"
    using assms by (simp add: block_mean_alpha_def)
  then show ?thesis by (simp add: png_cell_def f Let_def)
qed

lemma load_png_sprite_cells:
  assumes "load_png_sprite avail opened rsz pst target_cells bg_rgb use_ss supersample = Inr (Some sprite)"
  shows "\<exists>im hr_img. opened = Some im \<and> 0 < target_cells
           \<and> hr_image rsz pst im (target_cells * (if use_ss then max 1 supersample else 1)) = Inr hr_img
           \<and> length sprite = nat target_cells
           \<and> (\<forall>cy < nat target_cells. length (sprite ! cy) = nat target_cells
                \<and> (\<forall>cx < nat target_cells.
                      sprite ! cy ! cx =
                        png_cell (im_px hr_img) bg_rgb
                          (nat (if use_ss then max 1 supersample else 1)) cy cx))"
  using assms
  by (auto simp: load_png_sprite_def Let_def split: if_splits option.splits sum.splits)

text \<open>
  Claim C6. A cell whose block has mean coverage alpha below 0.01 is \<open>None\<close>, whatever
  the colour channels and the background are; and every cell of a sprite that the loader
  returns is such a block average of the high-resolution image it built.
\<close>

theorem low_coverage_cell_is_transparent:
  "(block_mean_alpha hr_px ss cy cx < 1 / 100 \<longrightarrow> png_cell hr_px bg_rgb ss cy cx = None)
   \<and> (load_png_sprite avail opened rsz pst target_cells bg_rgb use_ss supersample = Inr (Some sprite) \<longrightarrow>
        (\<exists>im hr_img. opened = Some im
           \<and> hr_image rsz pst im (target_cells * (if use_ss then max 1 supersample else 1)) = Inr hr_img
           \<and> (\<forall>cy < nat target_cells. \<forall>cx < nat target_cells.
                 block_mean_alpha (im_px hr_img) (nat (if use_ss then max 1 supersample else 1)) cy cx
                   < 1 / 100
                 \<longrightarrow> sprite ! cy ! cx = None)))"
proof (intro conjI impI)
  assume "block_mean_alpha hr_px ss cy cx < 1 / 100"
  then show "png_cell hr_px bg_rgb ss cy cx = None" by (rule png_cell_transparent)
next
  assume "load_png_sprite avail opened rsz pst target_cells bg_rgb use_ss supersample = Inr (Some sprite)"
  from load_png_sprite_cells[OF this]
  obtain im hr_img where a: "opened = Some im"
    "hr_image rsz pst im (target_cells * (if use_ss then max 1 supersample else 1)) = Inr hr_img"
    and cells: "\<And>cy cx. cy < nat target_cells \<Longrightarrow> cx < nat target_cells \<Longrightarrow>
       sprite ! cy ! cx = png_cell (im_px hr_img) bg_rgb
                          (nat (if use_ss then max 1 supersample else 1)) cy cx"
    by blast
  show "\<exists>im hr_img. opened = Some im
           \<and> hr_image rsz pst im (target_cells * (if use_ss then max 1 supersample else 1)) = Inr hr_img
           \<and> (\<forall>cy < nat target_cells. \<forall>cx < nat target_cells.
                 block_mean_alpha (im_px hr_img) (nat (if use_ss then max 1 supersample else 1)) cy cx
                   < 1 / 100
                 \<longrightarrow> sprite ! cy ! cx = None)"
    using a cells png_cell_transparent by (intro exI[of _ im] exI[of _ hr_img]) simp
qed

lemma faint_block: "block_pixels (im_px faint_image) 2 0 0 = [(255, 0, 0, 2), (255, 0, 0, 0), (255, 0, 0, 0), (255, 0, 0, 0)]"
  by (simp add: block_pixels_def faint_image_def numeral_2_eq_2)

lemma faint_mean: "block_mean_alpha (im_px faint_image) 2 0 0 < 1 / 100"
  by (simp add: block_mean_alpha_def faint_block)

text \<open>A block of bright red pixels with alpha sum 2 out of 1020 gives a transparent cell.\<close>

theorem low_coverage_witness:
  "block_mean_alpha (im_px faint_image) 2 0 0 < 1 / 100
   \<and> png_cell (im_px faint_image) (18, 8, 84) 2 0 0 = None
   \<and> load_png_sprite True (Some faint_image) keep_pixels_resize keep_pixels_paste 1 (18, 8, 84) True 2
       = Inr (Some [[None]])"
proof -
  have c: "png_cell (im_px faint_image) (18, 8, 84) 2 0 0 = None"
    using low_coverage_cell_is_transparent[of "im_px faint_image" 2 0 0 "(18, 8, 84)"] faint_mean
    by blast
  have hr: "hr_image keep_pixels_resize keep_pixels_paste faint_image 2 = Inr faint_image"
    by (simp add: hr_image_def faint_image_def keep_pixels_resize_def Let_def)
  have "load_png_sprite True (Some faint_image) keep_pixels_resize keep_pixels_paste 1 (18, 8, 84) True 2
       = Inr (Some [[png_cell (im_px faint_image) (18, 8, 84) 2 0 0]])"
    by (simp add: load_png_sprite_def hr Let_def)
  then show ?thesis using c faint_mean by simp
qed












section \<open>Properties of the physics tick\<close>

subsection \<open>Rounding to a double\<close>


subsection \<open>Ties-to-even rounding to an integer\<close>

lemma py_round_cases:
  obtains (down) "x - of_int \<lfloor>x\<rfloor> < 1/2" "py_round x = \<lfloor>x\<rfloor>"
  | (up) "x - of_int \<lfloor>x\<rfloor> > 1/2" "py_round x = \<lfloor>x\<rfloor> + 1"
  | (tie_even) "x - of_int \<lfloor>x\<rfloor> = 1/2" "even \<lfloor>x\<rfloor>" "py_round x = \<lfloor>x\<rfloor>"
  | (tie_odd) "x - of_int \<lfloor>x\<rfloor> = 1/2" "odd \<lfloor>x\<rfloor>" "py_round x = \<lfloor>x\<rfloor> + 1"
  by (cases "x - of_int \<lfloor>x\<rfloor> < 1/2"; cases "x - of_int \<lfloor>x\<rfloor> > 1/2"; cases "even \<lfloor>x\<rfloor>")
     (auto simp: py_round_def Let_def)

lemma py_round_bounds: "\<lfloor>x\<rfloor> \<le> py_round x" "py_round x \<le> \<lfloor>x\<rfloor> + 1"
  by (cases x rule: py_round_cases; simp)+

lemma py_round_mono:
  assumes "x \<le> y"
  shows "py_round x \<le> py_round y"
proof (cases "\<lfloor>x\<rfloor> = \<lfloor>y\<rfloor>")
  case True
  then have d: "x - of_int \<lfloor>x\<rfloor> \<le> y - of_int \<lfloor>y\<rfloor>" using assms by simp
  show ?thesis
    by (cases x rule: py_round_cases; cases y rule: py_round_cases) (use True d in simp_all)
next
  case False
  then have "\<lfloor>x\<rfloor> + 1 \<le> \<lfloor>y\<rfloor>" using floor_mono[OF assms] by simp
  then show ?thesis using py_round_bounds(2)[of x] py_round_bounds(1)[of y] by linarith
qed

lemma py_round_minus: "py_round (- x) = - py_round x"
proof (cases "x = of_int \<lfloor>x\<rfloor>")
  case True
  then obtain n where "x = of_int n" ..
  then show ?thesis using py_round_of_int[of "- n"] by simp
next
  case False
  then have fl: "\<lfloor>- x\<rfloor> = - \<lfloor>x\<rfloor> - 1"
    by (metis ceiling_altdef ceiling_def add_diff_cancel_right' minus_diff_eq minus_minus
        diff_minus_eq_add uminus_add_conv_diff)
  then have d: "- x - of_int \<lfloor>- x\<rfloor> = 1 - (x - of_int \<lfloor>x\<rfloor>)" by simp
  have par: "even \<lfloor>- x\<rfloor> \<longleftrightarrow> odd \<lfloor>x\<rfloor>" unfolding fl by simp
  show ?thesis
    by (cases x rule: py_round_cases; cases "- x" rule: py_round_cases)
       (use d par fl in simp_all)
qed

lemma py_round_nonneg: "0 \<le> x \<Longrightarrow> 0 \<le> py_round x"
  using py_round_mono[of 0 x] py_round_of_int[of 0] by simp

lemma py_round_eq_0_iff_small: "py_round x = 0 \<Longrightarrow> \<bar>x\<bar> \<le> 1/2"
  by (cases x rule: py_round_cases) (simp_all, linarith+)

subsection \<open>Binary exponent and unit in the last place\<close>

lemma float_exp_bounds:
  assumes "x \<noteq> 0"
  shows "2 powr of_int (float_exp x) \<le> \<bar>x\<bar>" "\<bar>x\<bar> < 2 powr (of_int (float_exp x) + 1)"
proof -
  have pos: "0 < \<bar>x\<bar>" using assms by simp
  have "of_int (float_exp x) \<le> log 2 \<bar>x\<bar>" by (simp add: float_exp_def)
  then show "2 powr of_int (float_exp x) \<le> \<bar>x\<bar>"
    using pos by (simp add: le_log_iff)
  have "log 2 \<bar>x\<bar> < of_int (float_exp x) + 1" by (simp add: float_exp_def)
  then show "\<bar>x\<bar> < 2 powr (of_int (float_exp x) + 1)"
    using pos by (simp add: log_less_iff)
qed

lemma float_exp_eq:
  assumes "2 powr of_int k \<le> \<bar>x\<bar>" "\<bar>x\<bar> < 2 powr (of_int k + 1)"
  shows "float_exp x = k"
proof -
  have pos: "0 < \<bar>x\<bar>" using assms(1) by (smt (verit) powr_gt_zero)
  have "of_int k \<le> log 2 \<bar>x\<bar>" using assms(1) pos by (simp add: le_log_iff)
  moreover have "log 2 \<bar>x\<bar> < of_int k + 1" using assms(2) pos by (simp add: log_less_iff)
  ultimately show ?thesis unfolding float_exp_def by (intro floor_unique) simp_all
qed

lemma float_exp_minus [simp]: "float_exp (- x) = float_exp x"
  by (simp add: float_exp_def)

lemma ulp_minus [simp]: "ulp (- x) = ulp x"
  by (simp add: ulp_def)

lemma ulp_pos [simp]: "0 < ulp x"
  by (simp add: ulp_def)

lemma float_exp_mono:
  assumes "0 < x" "x \<le> y"
  shows "float_exp x \<le> float_exp y"
  unfolding float_exp_def using assms by (intro floor_mono) (simp add: log_le_cancel_iff)

lemma scaled_range:
  assumes "x \<noteq> 0"
  shows "2 ^ 52 \<le> \<bar>x\<bar> / ulp x" "\<bar>x\<bar> / ulp x < 2 ^ 53"
proof -
  have p52: "(2::real) ^ 52 = 2 powr 52" by simp
  have "(2::real) powr (of_int (float_exp x) - 52) * 2 powr 52
          = 2 powr ((of_int (float_exp x) - 52) + 52)"
    by (rule powr_add[symmetric])
  then have u: "ulp x * 2 ^ 52 = 2 powr of_int (float_exp x)"
    unfolding ulp_def p52 by simp
  have "(2::real) powr of_int (float_exp x) * 2 powr 1 = 2 powr (of_int (float_exp x) + 1)"
    by (rule powr_add[symmetric])
  moreover have "ulp x * 2 ^ 53 = (ulp x * 2 ^ 52) * 2" by simp
  ultimately have u': "ulp x * 2 ^ 53 = 2 powr (of_int (float_exp x) + 1)"
    unfolding u by simp
  show "2 ^ 52 \<le> \<bar>x\<bar> / ulp x"
    using float_exp_bounds(1)[OF assms] u by (simp add: pos_le_divide_eq mult.commute)
  show "\<bar>x\<bar> / ulp x < 2 ^ 53"
    using float_exp_bounds(2)[OF assms] u' by (simp add: pos_divide_less_eq mult.commute)
qed



subsection \<open>Rounding to the nearest double\<close>

lemma ulp_scale:
  "ulp x * 2 ^ 52 = 2 powr of_int (float_exp x)"
  "ulp x * 2 ^ 53 = 2 powr (of_int (float_exp x) + 1)"
proof -
  have p52: "(2::real) ^ 52 = 2 powr 52" by simp
  have "(2::real) powr (of_int (float_exp x) - 52) * 2 powr 52
          = 2 powr ((of_int (float_exp x) - 52) + 52)"
    by (rule powr_add[symmetric])
  then show u: "ulp x * 2 ^ 52 = 2 powr of_int (float_exp x)"
    unfolding ulp_def p52 by simp
  have "(2::real) powr of_int (float_exp x) * 2 powr 1 = 2 powr (of_int (float_exp x) + 1)"
    by (rule powr_add[symmetric])
  moreover have "ulp x * 2 ^ 53 = (ulp x * 2 ^ 52) * 2" by simp
  ultimately show "ulp x * 2 ^ 53 = 2 powr (of_int (float_exp x) + 1)"
    unfolding u by simp
qed

lemma round_double_0 [simp]: "round_double 0 = 0"
  by (simp add: round_double_def)

lemma round_double_minus: "round_double (- x) = - round_double x"
  by (simp add: round_double_def py_round_minus)

lemma ulp_neq_0 [simp]: "ulp x \<noteq> 0"
  by (simp add: ulp_def)

lemma ulp_nonneg [simp]: "0 \<le> ulp x"
  by (rule less_imp_le[OF ulp_pos])

lemma round_double_nonneg:
  assumes "0 \<le> x"
  shows "0 \<le> round_double x"
proof -
  have "0 \<le> x / ulp x" using assms by simp
  then have "0 \<le> py_round (x / ulp x)" by (rule py_round_nonneg)
  then have "0 \<le> real_of_int (py_round (x / ulp x)) * ulp x" by simp
  then show ?thesis by (simp add: round_double_def)
qed

lemma round_double_nonpos: "x \<le> 0 \<Longrightarrow> round_double x \<le> 0"
  using round_double_nonneg[of "- x"] by (simp add: round_double_minus)

lemma significand_range:
  assumes "0 < x"
  shows "2 ^ 52 \<le> py_round (x / ulp x)" "py_round (x / ulp x) \<le> 2 ^ 53"
proof -
  have r: "2 ^ 52 \<le> x / ulp x" "x / ulp x < 2 ^ 53"
    using scaled_range[of x] assms by simp_all
  have "py_round (of_int (2 ^ 52)) \<le> py_round (x / ulp x)"
    by (rule py_round_mono) (use r in simp)
  then show "2 ^ 52 \<le> py_round (x / ulp x)" by (simp only: py_round_of_int)
  have "py_round (x / ulp x) \<le> py_round (of_int (2 ^ 53))"
    by (rule py_round_mono) (use r in simp)
  then show "py_round (x / ulp x) \<le> 2 ^ 53" by (simp only: py_round_of_int)
qed

lemma ulp_scale_int:
  "real_of_int (2 ^ 52) * ulp x = 2 powr of_int (float_exp x)"
  "real_of_int (2 ^ 53) * ulp x = 2 powr (of_int (float_exp x) + 1)"
  using ulp_scale[of x] by (simp_all add: mult.commute)

lemma round_double_binade:
  assumes "0 < x"
  shows "2 powr of_int (float_exp x) \<le> round_double x"
    "round_double x \<le> 2 powr (of_int (float_exp x) + 1)"
proof -
  have rd: "round_double x = of_int (py_round (x / ulp x)) * ulp x"
    using assms by (simp add: round_double_def)
  have "real_of_int (2 ^ 52) \<le> real_of_int (py_round (x / ulp x))"
    using significand_range(1)[OF assms] by (simp only: of_int_le_iff)
  then have "real_of_int (2 ^ 52) * ulp x \<le> of_int (py_round (x / ulp x)) * ulp x"
    by (rule mult_right_mono) (rule ulp_nonneg)
  then show "2 powr of_int (float_exp x) \<le> round_double x"
    unfolding rd ulp_scale_int .
  have "real_of_int (py_round (x / ulp x)) \<le> real_of_int (2 ^ 53)"
    using significand_range(2)[OF assms] by (simp only: of_int_le_iff)
  then have "of_int (py_round (x / ulp x)) * ulp x \<le> real_of_int (2 ^ 53) * ulp x"
    by (rule mult_right_mono) (rule ulp_nonneg)
  then show "round_double x \<le> 2 powr (of_int (float_exp x) + 1)"
    unfolding rd ulp_scale_int .
qed

lemma round_double_pos: "0 < x \<Longrightarrow> 0 < round_double x"
  using round_double_binade(1)[of x] by (smt (verit) powr_gt_zero)

lemma round_double_eq_0_iff [simp]: "round_double x = 0 \<longleftrightarrow> x = 0"
proof
  assume z: "round_double x = 0"
  show "x = 0"
  proof (rule ccontr)
    assume "x \<noteq> 0"
    then consider "0 < x" | "0 < - x" by linarith
    then show False
    proof cases
      case 1
      then show False using round_double_pos[of x] z by simp
    next
      case 2
      then show False using round_double_pos[of "- x"] z by (simp add: round_double_minus)
    qed
  qed
qed simp

lemma round_double_mono_pos:
  assumes "0 < x" "x \<le> y"
  shows "round_double x \<le> round_double y"
proof (cases "float_exp x = float_exp y")
  case True
  then have u: "ulp x = ulp y" by (simp add: ulp_def)
  have "x / ulp y \<le> y / ulp y" by (rule divide_right_mono[OF assms(2) ulp_nonneg])
  then have "py_round (x / ulp y) \<le> py_round (y / ulp y)" by (rule py_round_mono)
  then have "of_int (py_round (x / ulp y)) * ulp y \<le> of_int (py_round (y / ulp y)) * ulp y"
    by (intro mult_right_mono) simp_all
  then show ?thesis using assms by (simp add: round_double_def u)
next
  case False
  then have lt: "float_exp x + 1 \<le> float_exp y"
    using float_exp_mono[OF assms] by simp
  have y: "0 < y" using assms by simp
  have "round_double x \<le> 2 powr (of_int (float_exp x) + 1)"
    by (rule round_double_binade(2)[OF assms(1)])
  also have "\<dots> \<le> 2 powr of_int (float_exp y)"
  proof -
    have "real_of_int (float_exp x) + 1 \<le> real_of_int (float_exp y)"
      using lt by (metis of_int_1 of_int_add of_int_le_iff)
    then show ?thesis by (simp add: powr_mono)
  qed
  also have "\<dots> \<le> round_double y" by (rule round_double_binade(1)[OF y])
  finally show ?thesis .
qed

lemma round_double_mono:
  assumes "x \<le> y"
  shows "round_double x \<le> round_double y"
proof -
  consider "0 < x" | "x \<le> 0" "0 \<le> y" | "y < 0" by linarith
  then show ?thesis
  proof cases
    case 1
    then show ?thesis using assms by (rule round_double_mono_pos)
  next
    case 2
    then show ?thesis using round_double_nonpos[of x] round_double_nonneg[of y] by linarith
  next
    case 3
    then have "round_double (- y) \<le> round_double (- x)"
      using assms by (intro round_double_mono_pos) simp_all
    then show ?thesis by (simp add: round_double_minus)
  qed
qed

lemma round_double_representable:
  assumes "\<bar>n\<bar> < 2 ^ 53"
  shows "round_double (of_int n * 2 powr of_int j) = of_int n * 2 powr of_int j"
proof (cases "n = 0")
  case True
  then show ?thesis by simp
next
  case False
  define x where "x = real_of_int n * 2 powr of_int j"
  define k where "k = float_exp (of_int n)"
  have n0: "real_of_int n \<noteq> 0" using False by simp
  have x0: "x \<noteq> 0" using False by (simp add: x_def)
  have kb: "2 powr of_int k \<le> \<bar>real_of_int n\<bar>" "\<bar>real_of_int n\<bar> < 2 powr (of_int k + 1)"
    unfolding k_def using float_exp_bounds[OF n0] by simp_all
  have nlt: "\<bar>real_of_int n\<bar> < 2 ^ 53"
    using assms by (metis of_int_abs of_int_less_iff of_int_numeral of_int_power)
  have p53: "(2::real) powr real (53::nat) = 2 ^ 53" by (rule powr_realpow) simp
  have "(2::real) powr of_int k < 2 ^ 53" using kb(1) nlt by (rule le_less_trans)
  then have "(2::real) powr of_int k < 2 powr real (53::nat)" by (simp only: p53)
  moreover have "(1::real) < 2" by simp
  ultimately have "real_of_int k < real (53::nat)" by (simp only: powr_less_cancel_iff)
  then have k52: "k \<le> 52" by simp
  have absx: "\<bar>x\<bar> = \<bar>real_of_int n\<bar> * 2 powr of_int j" by (simp add: x_def abs_mult)
  have "(2::real) powr of_int (k + j) = 2 powr of_int k * 2 powr of_int j" by (simp add: powr_add)
  also have "\<dots> \<le> \<bar>x\<bar>" unfolding absx using kb(1) by (intro mult_right_mono) simp_all
  finally have lo: "2 powr of_int (k + j) \<le> \<bar>x\<bar>" .
  have "\<bar>x\<bar> < 2 powr (of_int k + 1) * 2 powr of_int j"
    unfolding absx using kb(2) by (intro mult_strict_right_mono) simp_all
  also have "\<dots> = 2 powr (of_int (k + j) + 1)" by (simp add: powr_add[symmetric] algebra_simps)
  finally have hi: "\<bar>x\<bar> < 2 powr (of_int (k + j) + 1)" .
  have e: "float_exp x = k + j" by (rule float_exp_eq[OF lo hi])
  have u: "ulp x = 2 powr (of_int j - of_int (52 - k))" by (simp add: ulp_def e algebra_simps)
  have p: "2 powr real_of_int (52 - k) = 2 ^ nat (52 - k)"
    using k52 by (simp add: powr_realpow[symmetric])
  have "x / ulp x = real_of_int n * (2 powr of_int j / 2 powr (of_int j - of_int (52 - k)))"
    unfolding u by (simp add: x_def)
  also have "(2::real) powr of_int j / 2 powr (of_int j - real_of_int (52 - k)) = 2 powr real_of_int (52 - k)"
    by (simp add: powr_diff[symmetric])
  finally have "x / ulp x = real_of_int n * 2 powr real_of_int (52 - k)" .
  then have sc: "x / ulp x = of_int (n * 2 ^ nat (52 - k))" unfolding p by simp
  have "round_double x = of_int (n * 2 ^ nat (52 - k)) * ulp x"
    using x0 by (simp only: round_double_def sc py_round_of_int if_False)
  also have "\<dots> = (x / ulp x) * ulp x" by (simp only: sc)
  also have "\<dots> = x" by simp
  finally show ?thesis by (simp add: x_def)
qed

lemma round_double_of_int: "\<bar>n\<bar> < 2 ^ 53 \<Longrightarrow> round_double (of_int n) = of_int n"
  using round_double_representable[of n 0] by simp

lemma round_double_abs_le:
  assumes "\<bar>x\<bar> \<le> B" "round_double B = B"
  shows "\<bar>round_double x\<bar> \<le> B"
proof -
  have "round_double x \<le> round_double B" using assms(1) by (intro round_double_mono) simp
  moreover have "round_double (- B) \<le> round_double x" using assms(1) by (intro round_double_mono) simp
  ultimately show ?thesis using assms(2) by (simp add: round_double_minus abs_le_iff)
qed



lemma round_double_dyadic:
  assumes "\<bar>n\<bar> < 2 ^ 53"
  shows "round_double (of_int n / 2 ^ k) = of_int n / 2 ^ k"
proof -
  have "(2::real) powr of_int (- int k) = 1 / 2 powr real k"
    by (simp add: powr_minus divide_inverse)
  also have "\<dots> = 1 / 2 ^ k" by (simp add: powr_realpow)
  finally have p: "(2::real) powr of_int (- int k) = 1 / 2 ^ k" .
  show ?thesis using round_double_representable[OF assms, of "- int k"] unfolding p by simp
qed

lemma doubles:
  "round_double (1 / 16) = 1 / 16" "round_double (63 / 64) = 63 / 64"
  "round_double (65 / 16) = 65 / 16" "round_double 4 = 4" "round_double (1 / 2) = 1 / 2"
  using round_double_dyadic[of 1 4] round_double_dyadic[of 63 6] round_double_dyadic[of 65 4]
    round_double_dyadic[of 4 0] round_double_dyadic[of 1 1]
  by simp_all

lemma AC_bounds: "0 < AC" "AC \<le> 1 / 16"
proof -
  show "0 < AC" unfolding AC_def by (rule round_double_pos) simp
  have "round_double (5 / 100) \<le> round_double (1 / 16)" by (rule round_double_mono) simp
  then show "AC \<le> 1 / 16" by (simp add: AC_def doubles)
qed

lemma DE_bounds: "0 < DE" "DE \<le> 63 / 64"
proof -
  show "0 < DE" unfolding DE_def by (rule round_double_pos) simp
  have "round_double (98 / 100) \<le> round_double (63 / 64)" by (rule round_double_mono) simp
  then show "DE \<le> 63 / 64" by (simp add: DE_def doubles)
qed

lemma py_round_err: "\<bar>of_int (py_round y) - y\<bar> \<le> 1 / 2"
proof -
  have f: "of_int \<lfloor>y\<rfloor> \<le> y" "y < of_int \<lfloor>y\<rfloor> + 1" by linarith+
  show ?thesis
  proof (cases y rule: py_round_cases)
    case down
    then show ?thesis using f by (simp add: abs_le_iff)
  next
    case up
    then show ?thesis using f by (simp add: abs_le_iff)
  next
    case tie_even
    then show ?thesis using f by (simp add: abs_le_iff)
  next
    case tie_odd
    then show ?thesis using f by (simp add: abs_le_iff)
  qed
qed

lemma round_double_err: "\<bar>round_double x - x\<bar> \<le> \<bar>x\<bar> / 2 ^ 53"
proof (cases "x = 0")
  case True
  then show ?thesis by simp
next
  case False
  define u where "u = ulp x"
  define p :: real where "p = 2 ^ 52"
  have u0: "0 < u" by (simp add: u_def)
  have p0: "0 < p" by (simp add: p_def)
  have "round_double x - x = (of_int (py_round (x / u)) - x / u) * u"
    using False u0 by (simp add: round_double_def u_def algebra_simps)
  then have "\<bar>round_double x - x\<bar> = \<bar>of_int (py_round (x / u)) - x / u\<bar> * u"
    using u0 by (simp add: abs_mult)
  also have "\<dots> \<le> 1 / 2 * u"
    using py_round_err[of "x / u"] u0 by (intro mult_right_mono) simp_all
  finally have a: "\<bar>round_double x - x\<bar> \<le> u / 2" by simp
  have "p \<le> \<bar>x\<bar> / u" using scaled_range(1)[OF False] by (simp add: u_def p_def)
  then have "p * u \<le> \<bar>x\<bar>" using u0 by (simp add: pos_le_divide_eq)
  then have "u \<le> \<bar>x\<bar> / p" using p0 by (simp add: pos_le_divide_eq mult.commute)
  then have "u / 2 \<le> \<bar>x\<bar> / p / 2" by simp
  also have "\<dots> = \<bar>x\<bar> / 2 ^ 53" by (simp add: p_def)
  finally show ?thesis using a by linarith
qed

lemma round_double_rel: "\<bar>round_double x\<bar> \<le> \<bar>x\<bar> * (1 + 1 / 2 ^ 53)"
proof -
  have "\<bar>round_double x\<bar> \<le> \<bar>x\<bar> + \<bar>round_double x - x\<bar>" by linarith
  also have "\<dots> \<le> \<bar>x\<bar> + \<bar>x\<bar> / 2 ^ 53" using round_double_err[of x] by linarith
  also have "\<dots> = \<bar>x\<bar> * (1 + 1 / 2 ^ 53)" by (simp add: algebra_simps)
  finally show ?thesis .
qed

lemma damped_step_within:
  assumes "\<bar>v\<bar> \<le> B" "4 \<le> B" "round_double B = B"
  shows "\<bar>fmul (fadd v AC) DE\<bar> \<le> B" "\<bar>fmul (fsub v AC) DE\<bar> \<le> B"
proof -
  define c :: real where "c = (1 + 1 / 2 ^ 53) * (63 / 64)"
  have c: "0 \<le> c" "c \<le> 64 / 65" by (simp_all add: c_def)
  have step: "\<bar>round_double (round_double u * DE)\<bar> \<le> B" if "\<bar>u\<bar> \<le> B + 1 / 16" for u
  proof -
    have "\<bar>round_double u\<bar> \<le> \<bar>u\<bar> * (1 + 1 / 2 ^ 53)" by (rule round_double_rel)
    also have "\<dots> \<le> (B + 1 / 16) * (1 + 1 / 2 ^ 53)"
      using that by (intro mult_right_mono) simp_all
    finally have a: "\<bar>round_double u\<bar> \<le> (B + 1 / 16) * (1 + 1 / 2 ^ 53)" .
    have "\<bar>round_double u * DE\<bar> = \<bar>round_double u\<bar> * DE" using DE_bounds(1) by (simp add: abs_mult)
    also have "\<dots> \<le> ((B + 1 / 16) * (1 + 1 / 2 ^ 53)) * (63 / 64)"
      using a DE_bounds assms(2) by (intro mult_mono) simp_all
    also have "\<dots> = (B + 1 / 16) * c" by (simp add: c_def)
    also have "\<dots> \<le> (B + 1 / 16) * (64 / 65)"
      using c(2) assms(2) by (intro mult_left_mono) simp_all
    also have "\<dots> \<le> B" using assms(2) by simp
    finally show ?thesis using assms(3) by (rule round_double_abs_le)
  qed
  have "\<bar>v + AC\<bar> \<le> B + 1 / 16" "\<bar>v - AC\<bar> \<le> B + 1 / 16"
    using assms(1) AC_bounds by linarith+
  then show "\<bar>fmul (fadd v AC) DE\<bar> \<le> B" "\<bar>fmul (fsub v AC) DE\<bar> \<le> B"
    unfolding fmul_def fadd_def fsub_def by (simp_all add: step)
qed

subsection \<open>The wrap\<close>

lemma c_fmod_range:
  assumes "0 < m"
  shows "0 \<le> x \<Longrightarrow> 0 \<le> c_fmod x m \<and> c_fmod x m < m"
    and "x < 0 \<Longrightarrow> - m < c_fmod x m \<and> c_fmod x m \<le> 0"
proof -
  have fl: "m * of_int \<lfloor>x / m\<rfloor> \<le> x" "x < m * of_int \<lfloor>x / m\<rfloor> + m"
  proof -
    have "of_int \<lfloor>x / m\<rfloor> \<le> x / m" "x / m < of_int \<lfloor>x / m\<rfloor> + 1" by linarith+
    then have "of_int \<lfloor>x / m\<rfloor> * m \<le> x" "x < (of_int \<lfloor>x / m\<rfloor> + 1) * m"
      using assms by (simp_all only: pos_le_divide_eq pos_divide_less_eq)
    then show "m * of_int \<lfloor>x / m\<rfloor> \<le> x" "x < m * of_int \<lfloor>x / m\<rfloor> + m"
      by (simp_all add: algebra_simps)
  qed
  have ce: "m * of_int \<lceil>x / m\<rceil> - m < x" "x \<le> m * of_int \<lceil>x / m\<rceil>"
  proof -
    have "of_int \<lceil>x / m\<rceil> - 1 < x / m" "x / m \<le> of_int \<lceil>x / m\<rceil>" by linarith+
    then have "(of_int \<lceil>x / m\<rceil> - 1) * m < x" "x \<le> of_int \<lceil>x / m\<rceil> * m"
      using assms by (simp_all only: pos_less_divide_eq pos_divide_le_eq)
    then show "m * of_int \<lceil>x / m\<rceil> - m < x" "x \<le> m * of_int \<lceil>x / m\<rceil>"
      by (simp_all add: algebra_simps)
  qed
  show "0 \<le> x \<Longrightarrow> 0 \<le> c_fmod x m \<and> c_fmod x m < m"
    using fl assms by (simp add: c_fmod_def py_int_def)
  show "x < 0 \<Longrightarrow> - m < c_fmod x m \<and> c_fmod x m \<le> 0"
  proof -
    assume "x < 0"
    then have "x / m < 0" using assms by (rule divide_neg_pos)
    then have "\<not> 0 \<le> x / m" by simp
    then show ?thesis using ce by (simp add: c_fmod_def py_int_def)
  qed
qed

lemma py_float_mod_range:
  assumes "0 < m" "round_double m = m"
  shows "\<exists>r. py_float_mod x m = Inr r \<and> 0 \<le> r \<and> r \<le> m"
proof (cases "0 \<le> x")
  case True
  then have "0 \<le> c_fmod x m" "c_fmod x m < m" using c_fmod_range(1)[OF assms(1)] by simp_all
  then show ?thesis using assms(1) by (auto simp: py_float_mod_def Let_def)
next
  case False
  then have r: "- m < c_fmod x m" "c_fmod x m \<le> 0" using c_fmod_range(2)[OF assms(1)] by simp_all
  have "round_double 0 \<le> round_double (c_fmod x m + m)" using r by (intro round_double_mono) simp
  moreover have "round_double (c_fmod x m + m) \<le> round_double m" using r by (intro round_double_mono) simp
  ultimately have "0 \<le> fadd (c_fmod x m) m" "fadd (c_fmod x m) m \<le> m"
    using assms(2) by (simp_all add: fadd_def)
  then show ?thesis using assms(1) r by (auto simp: py_float_mod_def Let_def)
qed

lemma py_float_mod_Inr: "m \<noteq> 0 \<Longrightarrow> \<exists>r. py_float_mod x m = Inr r"
  by (simp add: py_float_mod_def Let_def)



subsection \<open>One tick without thrust\<close>

lemma size_float_neq_0: "round_double (of_int (if s \<le> 0 then 1 else s)) \<noteq> 0"
  by simp

lemma physics_tick_coast:
  "\<exists>x' y'. physics_tick False False False False x0 y0 sw sh b =
              Inr \<lparr>body_x1 = x', body_y1 = y',
                   body_vx1 = fmul (if body_x1 b < of_int x0 then fadd (body_vx1 b) AC
                                    else fsub (body_vx1 b) AC) DE,
                   body_vy1 = fmul (if body_y1 b < of_int y0 then fadd (body_vy1 b) AC
                                    else fsub (body_vy1 b) AC) DE\<rparr>
     \<and> py_float_mod (fadd (body_x1 b) (if body_x1 b < of_int x0 then fadd (body_vx1 b) AC
                                          else fsub (body_vx1 b) AC))
           (round_double (of_int (if sw \<le> 0 then 1 else sw))) = Inr x'
     \<and> py_float_mod (fadd (body_y1 b) (if body_y1 b < of_int y0 then fadd (body_vy1 b) AC
                                          else fsub (body_vy1 b) AC))
           (round_double (of_int (if sh \<le> 0 then 1 else sh))) = Inr y'"
proof -
  obtain x' where x: "py_float_mod (fadd (body_x1 b) (if body_x1 b < of_int x0 then fadd (body_vx1 b) AC
                                          else fsub (body_vx1 b) AC))
           (round_double (of_int (if sw \<le> 0 then 1 else sw))) = Inr x'"
    using py_float_mod_Inr[OF size_float_neq_0] by blast
  obtain y' where y: "py_float_mod (fadd (body_y1 b) (if body_y1 b < of_int y0 then fadd (body_vy1 b) AC
                                          else fsub (body_vy1 b) AC))
           (round_double (of_int (if sh \<le> 0 then 1 else sh))) = Inr y'"
    using py_float_mod_Inr[OF size_float_neq_0] by blast
  show ?thesis
    using x y by (intro exI[of _ x'] exI[of _ y']) (simp add: physics_tick_def Let_def)
qed

lemma round_double_abs: "round_double v = v \<Longrightarrow> round_double \<bar>v\<bar> = \<bar>v\<bar>"
  by (cases "0 \<le> v") (simp_all add: abs_if round_double_minus)

lemma velocity_bound_double:
  assumes "round_double vx = vx" "round_double vy = vy"
  shows "round_double (max 4 (max \<bar>vx\<bar> \<bar>vy\<bar>)) = max 4 (max \<bar>vx\<bar> \<bar>vy\<bar>)"
  using round_double_abs[OF assms(1)] round_double_abs[OF assms(2)] doubles(4)
  by (simp add: max_def)

lemma physics_tick_within:
  assumes v: "\<bar>body_vx1 b\<bar> \<le> B" "\<bar>body_vy1 b\<bar> \<le> B"
    and B: "4 \<le> B" "round_double B = B"
    and sz: "0 < sw" "sw < 2 ^ 53" "0 < sh" "sh < 2 ^ 53"
  shows "bounded_state B sw sh (physics_tick False False False False x0 y0 sw sh b)"
proof -
  have mw: "round_double (of_int (if sw \<le> 0 then 1 else sw)) = of_int sw"
    using sz by (simp add: round_double_of_int)
  have mh: "round_double (of_int (if sh \<le> 0 then 1 else sh)) = of_int sh"
    using sz by (simp add: round_double_of_int)
  from physics_tick_coast[of x0 y0 sw sh b] obtain x' y' where
    t: "physics_tick False False False False x0 y0 sw sh b =
              Inr \<lparr>body_x1 = x', body_y1 = y',
                   body_vx1 = fmul (if body_x1 b < of_int x0 then fadd (body_vx1 b) AC
                                    else fsub (body_vx1 b) AC) DE,
                   body_vy1 = fmul (if body_y1 b < of_int y0 then fadd (body_vy1 b) AC
                                    else fsub (body_vy1 b) AC) DE\<rparr>"
    and x: "py_float_mod (fadd (body_x1 b) (if body_x1 b < of_int x0 then fadd (body_vx1 b) AC
                                          else fsub (body_vx1 b) AC)) (of_int sw) = Inr x'"
    and y: "py_float_mod (fadd (body_y1 b) (if body_y1 b < of_int y0 then fadd (body_vy1 b) AC
                                          else fsub (body_vy1 b) AC)) (of_int sh) = Inr y'"
    unfolding mw mh by blast
  have "0 < real_of_int sw" "round_double (real_of_int sw) = real_of_int sw"
    using sz by (simp_all add: round_double_of_int)
  from py_float_mod_range[OF this, of "fadd (body_x1 b) (if body_x1 b < of_int x0 then fadd (body_vx1 b) AC
                                          else fsub (body_vx1 b) AC)"] x
  have xr: "0 \<le> x' \<and> x' \<le> of_int sw" by auto
  have "0 < real_of_int sh" "round_double (real_of_int sh) = real_of_int sh"
    using sz by (simp_all add: round_double_of_int)
  from py_float_mod_range[OF this, of "fadd (body_y1 b) (if body_y1 b < of_int y0 then fadd (body_vy1 b) AC
                                          else fsub (body_vy1 b) AC)"] y
  have yr: "0 \<le> y' \<and> y' \<le> of_int sh" by auto
  show ?thesis
    unfolding t using xr yr damped_step_within[OF v(1) B] damped_step_within[OF v(2) B]
    by (simp add: bounded_state_def)
qed

lemma coast_within:
  assumes "bounded_state B sw sh (Inr b)" "4 \<le> B" "round_double B = B"
    "0 < sw" "sw < 2 ^ 53" "0 < sh" "sh < 2 ^ 53"
  shows "bounded_state B sw sh (coast n x0 y0 sw sh b)"
  using assms(1)
proof (induction n arbitrary: b)
  case 0
  then show ?case by simp
next
  case (Suc n)
  then have v: "\<bar>body_vx1 b\<bar> \<le> B" "\<bar>body_vy1 b\<bar> \<le> B" by (simp_all add: bounded_state_def)
  have bt: "bounded_state B sw sh (physics_tick False False False False x0 y0 sw sh b)"
    by (rule physics_tick_within[OF v assms(2-7)])
  then obtain b' where t: "physics_tick False False False False x0 y0 sw sh b = Inr b'"
    by (cases "physics_tick False False False False x0 y0 sw sh b") (simp_all add: bounded_state_def)
  show ?case using Suc.IH[of b'] bt by (simp add: t)
qed

lemma coast_one_speed:
  "speed_after (coast 1 x0 y0 sw sh
     \<lparr>body_x1 = of_int x0, body_y1 = of_int y0, body_vx1 = vx0, body_vy1 = vy0\<rparr>)
     = Some (sqrt ((fmul (fsub vx0 AC) DE)\<^sup>2 + (fmul (fsub vy0 AC) DE)\<^sup>2))"
proof -
  let ?b = "\<lparr>body_x1 = of_int x0, body_y1 = of_int y0, body_vx1 = vx0, body_vy1 = vy0\<rparr>"
  from physics_tick_coast[of x0 y0 sw sh ?b] obtain x' y' where
    "physics_tick False False False False x0 y0 sw sh ?b =
       Inr \<lparr>body_x1 = x', body_y1 = y', body_vx1 = fmul (fsub vx0 AC) DE,
            body_vy1 = fmul (fsub vy0 AC) DE\<rparr>"
    by auto
  then show ?thesis by (simp add: speed_after_def speed_def)
qed


subsection \<open>A tiny negative position\<close>


lemma py_round_near:
  assumes "\<bar>y - of_int n\<bar> < 1/2"
  shows "py_round y = n"
proof (cases "of_int n \<le> y")
  case True
  then have "\<lfloor>y\<rfloor> = n" using assms by (intro floor_unique) (simp_all add: abs_less_iff)
  then show ?thesis using assms True by (simp add: py_round_def abs_less_iff)
next
  case False
  then have f: "\<lfloor>y\<rfloor> = n - 1" using assms by (intro floor_unique) (simp_all add: abs_less_iff)
  then have "y - of_int \<lfloor>y\<rfloor> > 1/2" using assms False by (simp add: abs_less_iff)
  then show ?thesis using f by (simp add: py_round_def)
qed

lemma ulp_binade_6:
  assumes "64 \<le> x" "x < 128"
  shows "ulp x = 1 / 2 ^ 46"
proof -
  have "(2::real) powr of_int 6 = 2 ^ 6" using powr_realpow[of 2 6] by simp
  then have lo: "2 powr of_int 6 \<le> \<bar>x\<bar>" using assms by simp
  have "(2::real) powr (of_int 6 + 1) = 2 ^ 7" using powr_realpow[of 2 7] by simp
  then have hi: "\<bar>x\<bar> < 2 powr (of_int 6 + 1)" using assms by simp
  have e: "float_exp x = 6" by (rule float_exp_eq[OF lo hi])
  have "(2::real) powr (- real (46::nat)) = 1 / 2 powr real (46::nat)"
    by (rule powr_minus_divide)
  also have "\<dots> = 1 / 2 ^ 46" using powr_realpow[of 2 46] by simp
  finally have "(2::real) powr (- real (46::nat)) = 1 / 2 ^ 46" .
  moreover have "real_of_int 6 - 52 = - real (46::nat)" by simp
  ultimately show ?thesis unfolding ulp_def e by (simp only:)
qed

lemma round_just_below_80: "round_double (80 - 1 / 2 ^ 57) = 80"
proof -
  define x :: real where "x = 80 - 1 / 2 ^ 57"
  have x: "64 \<le> x" "x < 128" "x \<noteq> 0" by (simp_all add: x_def)
  have u: "ulp x = 1 / 2 ^ 46" by (rule ulp_binade_6[OF x(1,2)])
  have sc: "x / ulp x = of_int (80 * 2 ^ 46) - 1 / 2 ^ 11"
    unfolding u by (simp add: x_def)
  have "py_round (of_int (80 * 2 ^ 46) - 1 / 2 ^ 11) = 80 * 2 ^ 46"
    by (rule py_round_near) simp
  then have "py_round (x / ulp x) = 80 * 2 ^ 46" by (simp only: sc)
  then have "round_double x = of_int (80 * 2 ^ 46) * (1 / 2 ^ 46)"
    using x(3) by (simp only: round_double_def u if_False)
  also have "\<dots> = 80" by simp
  finally show ?thesis by (simp only: x_def)
qed

lemma tiny_doubles: "round_double (- (1 / 2 ^ 57)) = - (1 / 2 ^ 57)"
proof -
  have "round_double (of_int (- 1) / 2 ^ 57) = of_int (- 1) / 2 ^ 57"
    by (rule round_double_dyadic) simp
  then show ?thesis by simp
qed

lemma wrap_tiny_negative: "py_float_mod (- (1 / 2 ^ 57)) 80 = Inr 80"
proof -
  have "\<lceil>- (1 / 2 ^ 57) / (80 :: real)\<rceil> = 0"
    by (rule ceiling_unique) simp_all
  moreover have "\<not> 0 \<le> - (1 / 2 ^ 57) / (80 :: real)" by simp
  ultimately have "py_int (- (1 / 2 ^ 57) / 80) = 0" by (simp only: py_int_def if_False)
  then have c: "c_fmod (- (1 / 2 ^ 57)) 80 = - (1 / 2 ^ 57)"
    by (simp only: c_fmod_def)
  have "fadd (- (1 / 2 ^ 57)) 80 = 80"
    using round_just_below_80 by (simp add: fadd_def)
  then show ?thesis
    unfolding py_float_mod_def Let_def c by simp
qed


lemma AC_value: "AC = 7205759403792794 / 2 ^ 57"
proof -
  define x :: real where "x = 5 / 100"
  have x0: "x \<noteq> 0" by (simp add: x_def)
  have "(2::real) powr (- real (5::nat)) = 1 / 2 powr real (5::nat)" by (rule powr_minus_divide)
  also have "\<dots> = 1 / 2 ^ 5" using powr_realpow[of 2 5] by simp
  finally have p5: "(2::real) powr of_int (- 5) = 1 / 2 ^ 5" by simp
  have "(2::real) powr (- real (4::nat)) = 1 / 2 powr real (4::nat)" by (rule powr_minus_divide)
  also have "\<dots> = 1 / 2 ^ 4" using powr_realpow[of 2 4] by simp
  finally have p4: "(2::real) powr (of_int (- 5) + 1) = 1 / 2 ^ 4" by simp
  have lo: "2 powr of_int (- 5) \<le> \<bar>x\<bar>" unfolding p5 by (simp add: x_def)
  have hi: "\<bar>x\<bar> < 2 powr (of_int (- 5) + 1)" unfolding p4 by (simp add: x_def)
  have e: "float_exp x = - 5" by (rule float_exp_eq[OF lo hi])
  have "(2::real) powr (- real (57::nat)) = 1 / 2 powr real (57::nat)" by (rule powr_minus_divide)
  also have "\<dots> = 1 / 2 ^ 57" using powr_realpow[of 2 57] by simp
  finally have "(2::real) powr (- real (57::nat)) = 1 / 2 ^ 57" .
  moreover have "real_of_int (- 5) - 52 = - real (57::nat)" by simp
  ultimately have u: "ulp x = 1 / 2 ^ 57" unfolding ulp_def e by (simp only:)
  have sc: "x / ulp x = 2 ^ 57 / 20" unfolding u by (simp add: x_def)
  have "py_round ((2::real) ^ 57 / 20) = 7205759403792794"
    by (rule py_round_near) simp
  then have "py_round (x / ulp x) = 7205759403792794" by (simp only: sc)
  then have "round_double x = of_int 7205759403792794 * (1 / 2 ^ 57)"
    using x0 by (simp only: round_double_def u if_False)
  then show ?thesis by (simp add: AC_def x_def)
qed

lemma next_below_minus_AC: "- (AC + 1 / 2 ^ 57) = - (7205759403792795 / 2 ^ 57)"
  by (simp add: AC_value)

lemma next_below_minus_AC_double:
  "round_double (- (7205759403792795 / 2 ^ 57)) = - (7205759403792795 / 2 ^ 57)"
proof -
  have "round_double (of_int (- 7205759403792795) / 2 ^ 57) = of_int (- 7205759403792795) / 2 ^ 57"
    by (rule round_double_dyadic) simp
  then show ?thesis by simp
qed

subsection \<open>Coasting from the anchor\<close>

text \<open>
  Claim C3, as the code has it. With no key held the centring force still acts on every
  tick: \<open>AC\<close> is added to a velocity component when the body is below the anchor on that
  axis and subtracted otherwise, so also at the anchor itself. Starting at the anchor of
  a terminal of \<open>sw\<close> by \<open>sh\<close> cells (both below \<open>2\<^sup>5\<^sup>3\<close>) with any two doubles as velocity
  components, every one of the \<open>n\<close> ticks returns, the components never exceed in
  magnitude the larger of 4 and their initial magnitudes, and the position stays within
  \<open>[0, sw]\<close> by \<open>[0, sh]\<close>; and after the first tick the velocity magnitude is that of
  \<open>((vx0 - AC) \<cdot> DE, (vy0 - AC) \<cdot> DE)\<close> in double arithmetic, not \<open>0.98\<close> times the
  magnitude before.
\<close>

theorem coasting_stays_bounded:
  assumes "round_double vx0 = vx0" "round_double vy0 = vy0"
    and "0 \<le> x0" "x0 \<le> sw" "0 \<le> y0" "y0 \<le> sh"
    and "0 < sw" "sw < 2 ^ 53" "0 < sh" "sh < 2 ^ 53"
  shows "bounded_state (max 4 (max \<bar>vx0\<bar> \<bar>vy0\<bar>)) sw sh
           (coast n x0 y0 sw sh
              \<lparr>body_x1 = of_int x0, body_y1 = of_int y0, body_vx1 = vx0, body_vy1 = vy0\<rparr>)
       \<and> speed_after (coast 1 x0 y0 sw sh
              \<lparr>body_x1 = of_int x0, body_y1 = of_int y0, body_vx1 = vx0, body_vy1 = vy0\<rparr>)
           = Some (sqrt ((fmul (fsub vx0 AC) DE)\<^sup>2 + (fmul (fsub vy0 AC) DE)\<^sup>2))"
proof -
  define B where "B = max 4 (max \<bar>vx0\<bar> \<bar>vy0\<bar>)"
  have B: "4 \<le> B" "round_double B = B" "\<bar>vx0\<bar> \<le> B" "\<bar>vy0\<bar> \<le> B"
    unfolding B_def using velocity_bound_double[OF assms(1,2)] by (simp_all add: max_def)
  have "bounded_state B sw sh
          (Inr \<lparr>body_x1 = of_int x0, body_y1 = of_int y0, body_vx1 = vx0, body_vy1 = vy0\<rparr>)"
    using assms B by (simp add: bounded_state_def)
  then have "bounded_state B sw sh
           (coast n x0 y0 sw sh
              \<lparr>body_x1 = of_int x0, body_y1 = of_int y0, body_vx1 = vx0, body_vy1 = vy0\<rparr>)"
    using B(1,2) assms(7-10) by (rule coast_within)
  then show ?thesis unfolding B_def using coast_one_speed by blast
qed

text \<open>A hundred ticks from rest at the anchor \<open>(40, 12)\<close> of an 80 by 24 terminal.\<close>

theorem coasting_witness:
  "round_double 0 = 0 \<and> (0::int) \<le> 40 \<and> (40::int) \<le> 80 \<and> (0::int) \<le> 12 \<and> (12::int) \<le> 24
   \<and> (0::int) < 80 \<and> (80::int) < 2 ^ 53 \<and> (0::int) < 24 \<and> (24::int) < 2 ^ 53
   \<and> bounded_state 4 80 24
        (coast 100 40 12 80 24 \<lparr>body_x1 = 40, body_y1 = 12, body_vx1 = 0, body_vy1 = 0\<rparr>)"
proof -
  have h: "round_double 0 = 0" "(0::int) \<le> 40" "(40::int) \<le> 80" "(0::int) \<le> 12" "(12::int) \<le> 24"
    "(0::int) < 80" "(80::int) < 2 ^ 53" "(0::int) < 24" "(24::int) < 2 ^ 53"
    by simp_all
  have "bounded_state (max 4 (max \<bar>0\<bar> \<bar>0\<bar>)) 80 24
        (coast 100 40 12 80 24 \<lparr>body_x1 = of_int 40, body_y1 = of_int 12, body_vx1 = 0, body_vy1 = 0\<rparr>)"
    using coasting_stays_bounded[OF h(1) h(1) h(2) h(3) h(4) h(5) h(6) h(7) h(8) h(9), of 100]
    by (rule conjunct1)
  then show ?thesis using h by simp
qed

text \<open>
  Claim C3, as stated, fails from rest at the anchor: the velocity magnitude is 0 before
  the first tick and is not \<open>0 \<cdot> 0.98\<close> after it.
\<close>

theorem geometric_decay_counterexample:
  "speed \<lparr>body_x1 = 40, body_y1 = 12, body_vx1 = 0, body_vy1 = 0\<rparr> = 0
   \<and> speed_after (coast 1 40 12 80 24 \<lparr>body_x1 = 40, body_y1 = 12, body_vx1 = 0, body_vy1 = 0\<rparr>)
       \<noteq> Some (speed \<lparr>body_x1 = 40, body_y1 = 12, body_vx1 = 0, body_vy1 = 0\<rparr> * (98 / 100) ^ 1)"
proof -
  have s0: "speed \<lparr>body_x1 = 40, body_y1 = 12, body_vx1 = 0, body_vy1 = 0\<rparr> = 0"
    by (simp add: speed_def)
  have "AC \<noteq> 0" "DE \<noteq> 0" using AC_bounds(1) DE_bounds(1) by simp_all
  then have nz: "fmul (fsub 0 AC) DE \<noteq> 0" by (simp add: fmul_def fsub_def)
  have "speed_after (coast 1 40 12 80 24 \<lparr>body_x1 = of_int 40, body_y1 = of_int 12, body_vx1 = 0, body_vy1 = 0\<rparr>)
      = Some (sqrt ((fmul (fsub 0 AC) DE)\<^sup>2 + (fmul (fsub 0 AC) DE)\<^sup>2))"
    by (rule coast_one_speed)
  moreover have "sqrt ((fmul (fsub 0 AC) DE)\<^sup>2 + (fmul (fsub 0 AC) DE)\<^sup>2) \<noteq> 0"
    using nz by simp
  ultimately show ?thesis using s0 by simp
qed

subsection \<open>The wrap can return the modulus\<close>

text \<open>
  Claim C8. The wrap of a position \<open>p\<close> by a positive modulus \<open>m\<close> is claimed to lie in
  \<open>[0, m)\<close>. For the negative double \<open>p = - 2\<^sup>-\<^sup>5\<^sup>7\<close> and \<open>m = 80\<close> the float \<^verbatim>\<open>%\<close> returns 80:
  the C remainder is \<open>p\<close> itself and the addition of 80 rounds to 80. A tick reaches it
  from the position 0 with the horizontal velocity one unit in the last place below
  \<open>- AC\<close> (a double, \<open>AC\<close> being \<open>7205759403792794 / 2\<^sup>5\<^sup>7\<close>): the centring force leaves \<open>- 2\<^sup>-\<^sup>5\<^sup>7\<close>, the integration
  moves the body there, and the wrap puts it at \<open>x1 = 80\<close>, the width itself.
\<close>

theorem wrap_reaches_width:
  "AC = 7205759403792794 / 2 ^ 57
   \<and> round_double (- (AC + 1 / 2 ^ 57)) = - (AC + 1 / 2 ^ 57)
   \<and> py_float_mod (- (1 / 2 ^ 57)) (round_double (of_int 80)) = Inr 80
   \<and> x_after (physics_tick False False False False 40 12 80 24
        \<lparr>body_x1 = 0, body_y1 = 12, body_vx1 = - (AC + 1 / 2 ^ 57), body_vy1 = 0\<rparr>) = Some 80"
proof -
  have m: "round_double (of_int 80) = 80" using round_double_of_int[of 80] by simp
  have a: "py_float_mod (- (1 / 2 ^ 57)) (round_double (of_int 80)) = Inr 80"
    unfolding m by (rule wrap_tiny_negative)
  let ?b = "\<lparr>body_x1 = 0, body_y1 = 12, body_vx1 = - (AC + 1 / 2 ^ 57), body_vy1 = 0\<rparr>"
  have vx: "fadd (body_vx1 ?b) AC = - (1 / 2 ^ 57)"
    using tiny_doubles by (simp add: fadd_def)
  have x: "fadd (body_x1 ?b) (- (1 / 2 ^ 57)) = - (1 / 2 ^ 57)"
    using tiny_doubles by (simp add: fadd_def)
  from physics_tick_coast[of 40 12 80 24 ?b] obtain x' y' where
    t: "physics_tick False False False False 40 12 80 24 ?b =
          Inr \<lparr>body_x1 = x', body_y1 = y',
               body_vx1 = fmul (if body_x1 ?b < of_int 40 then fadd (body_vx1 ?b) AC
                                else fsub (body_vx1 ?b) AC) DE,
               body_vy1 = fmul (if body_y1 ?b < of_int 12 then fadd (body_vy1 ?b) AC
                                else fsub (body_vy1 ?b) AC) DE\<rparr>"
    and xw: "py_float_mod (fadd (body_x1 ?b) (if body_x1 ?b < of_int 40 then fadd (body_vx1 ?b) AC
                                               else fsub (body_vx1 ?b) AC))
               (round_double (of_int (if (80::int) \<le> 0 then 1 else 80))) = Inr x'"
    by blast
  have "(if body_x1 ?b < of_int 40 then fadd (body_vx1 ?b) AC else fsub (body_vx1 ?b) AC)
          = - (1 / 2 ^ 57)"
    using vx by simp
  then have "py_float_mod (- (1 / 2 ^ 57)) (round_double (of_int 80)) = Inr x'"
    using xw x by simp
  then have "x' = 80" using a by simp
  then have b: "x_after (physics_tick False False False False 40 12 80 24 ?b) = Some 80"
    unfolding t by (simp add: x_after_def)
  have d: "round_double (- (AC + 1 / 2 ^ 57)) = - (AC + 1 / 2 ^ 57)"
    unfolding next_below_minus_AC by (rule next_below_minus_AC_double)
  show ?thesis using AC_value d a b by blast
qed

end
